theory Spec2Isabelle
  imports Main "HOL-Library.Sublist"
begin

section \<open>JavaScript strings\<close>

text \<open>
  A JavaScript string is a sequence of UTF-16 code units. A code unit is modelled as a
  natural number and a string as a list of them; \<open>js\<close> turns an ASCII literal into
  such a list, so the sources' literals can be written down as they are.
\<close>

type_synonym codeunit = nat
type_synonym jsstring = "codeunit list"

definition js :: "string \<Rightarrow> jsstring" where
  "js s = map of_char s"

text \<open>
  The code units that \<open>String.prototype.trim\<close> strips and that the regular expression
  class \<open>\s\<close> matches: WhiteSpace and LineTerminator of ECMAScript.
\<close>

definition isWhiteSpace :: "codeunit \<Rightarrow> bool" where
  "isWhiteSpace c =
     (c \<in> {9, 10, 11, 12, 13, 32, 160, 5760, 8232, 8233, 8239, 8287, 12288, 65279}
      \<or> (8192 \<le> c \<and> c \<le> 8202))"

text \<open>\<open>s.trim()\<close>\<close>

definition trim :: "jsstring \<Rightarrow> jsstring" where
  "trim s = rev (dropWhile isWhiteSpace (rev (dropWhile isWhiteSpace s)))"

text \<open>\<open>s.includes(pat)\<close>\<close>

fun includes_js :: "jsstring \<Rightarrow> jsstring \<Rightarrow> bool" where
  "includes_js [] pat = (pat = [])"
| "includes_js (c # s) pat = (prefix pat (c # s) \<or> includes_js s pat)"

text \<open>\<open>s.split(sep)\<close> for a separator of one code unit; the empty string splits into \<open>['']\<close>.\<close>

fun split_js :: "codeunit \<Rightarrow> jsstring \<Rightarrow> jsstring list" where
  "split_js sep [] = [[]]"
| "split_js sep (c # s) =
     (if c = sep then [] # split_js sep s
      else (case split_js sep s of
              [] \<Rightarrow> [[c]]
            | l # ls \<Rightarrow> (c # l) # ls))"

text \<open>\<open>xs.join(sep)\<close>\<close>

fun join_js :: "jsstring \<Rightarrow> jsstring list \<Rightarrow> jsstring" where
  "join_js sep [] = []"
| "join_js sep [x] = x"
| "join_js sep (x # y # ys) = x @ sep @ join_js sep (y # ys)"

text \<open>\<open>xs.findIndex(P)\<close>; \<open>None\<close> stands for the result \<open>-1\<close>.\<close>

fun findIndex :: "('a \<Rightarrow> bool) \<Rightarrow> 'a list \<Rightarrow> nat option" where
  "findIndex P [] = None"
| "findIndex P (x # xs) =
     (if P x then Some 0 else map_option Suc (findIndex P xs))"

text \<open>
  A literal pattern tried at the start of a string, code unit by code unit, under the
  comparison \<open>eq\<close> (equality, or equality up to case for the \<open>i\<close> flag).
\<close>

fun matchesAt :: "(codeunit \<Rightarrow> codeunit \<Rightarrow> bool) \<Rightarrow> jsstring \<Rightarrow> jsstring \<Rightarrow> bool" where
  "matchesAt eq [] s = True"
| "matchesAt eq (p # ps) [] = False"
| "matchesAt eq (p # ps) (c # cs) = (eq p c \<and> matchesAt eq ps cs)"

text \<open>
  \<open>s.replace(/pat/g, '')\<close> for a literal pattern: scanning from the left, every match
  is dropped and the scan goes on behind it.
\<close>

fun removeAll_js :: "(codeunit \<Rightarrow> codeunit \<Rightarrow> bool) \<Rightarrow> jsstring \<Rightarrow> jsstring \<Rightarrow> jsstring" where
  "removeAll_js eq pat [] = []"
| "removeAll_js eq pat (c # cs) =
     (if pat \<noteq> [] \<and> matchesAt eq pat (c # cs)
      then removeAll_js eq pat (drop (length pat - 1) cs)
      else c # removeAll_js eq pat cs)"

text \<open>
  Canonicalize of the \<open>i\<close> flag (without \<open>u\<close>): the upper case of a code unit. Only
  ASCII letters are folded here; a code unit from 128 on never canonicalizes to an ASCII
  one, and the patterns of this program are ASCII.
\<close>

definition canonicalize :: "codeunit \<Rightarrow> codeunit" where
  "canonicalize c = (if 97 \<le> c \<and> c \<le> 122 then c - 32 else c)"

definition eqIgnoreCase :: "codeunit \<Rightarrow> codeunit \<Rightarrow> bool" where
  "eqIgnoreCase p c = (canonicalize p = canonicalize c)"

section \<open>The subtitle converter (src/utils/fileHelpers.ts, vttToSrt)\<close>

text \<open>
  \<open>/^WEBVTT\s*(\r\n|\n)+/\<close>. After the literal, \<open>\s*\<close> is greedy and gives code units
  back one at a time until \<open>(\r\n|\n)+\<close> matches behind it. \<open>skipNewlines\<close> is the greedy
  repetition of \<open>(\r\n|\n)\<close>, \<open>matchNewlines\<close> asks for one repetition at least, and
  \<open>matchHeaderTail k\<close> is \<open>\s*\<close> holding \<open>k\<close> code units. Each returns what is left of
  the string behind the match.
\<close>

fun skipNewlines :: "jsstring \<Rightarrow> jsstring" where
  "skipNewlines (a # b # s) =
     (if a = 13 \<and> b = 10 then skipNewlines s
      else if a = 10 then skipNewlines (b # s)
      else a # b # s)"
| "skipNewlines [a] = (if a = 10 then [] else [a])"
| "skipNewlines [] = []"

definition matchNewlines :: "jsstring \<Rightarrow> jsstring option" where
  "matchNewlines s =
     (if prefix [13, 10] s \<or> prefix [10] s then Some (skipNewlines s) else None)"

fun matchHeaderTail :: "nat \<Rightarrow> jsstring \<Rightarrow> jsstring option" where
  "matchHeaderTail 0 s = matchNewlines s"
| "matchHeaderTail (Suc k) s =
     (case matchNewlines (drop (Suc k) s) of
        Some r \<Rightarrow> Some r
      | None \<Rightarrow> matchHeaderTail k s)"

text \<open>\<open>vtt.replace(/^WEBVTT\s*(\r\n|\n)+/, '')\<close>: without a match the string is unchanged.\<close>

definition stripHeader :: "jsstring \<Rightarrow> jsstring" where
  "stripHeader vtt =
     (if prefix (js ''WEBVTT'') vtt
      then (let rest = drop 6 vtt in
            case matchHeaderTail (length (takeWhile isWhiteSpace rest)) rest of
              Some r \<Rightarrow> r
            | None \<Rightarrow> vtt)
      else vtt)"

text \<open>
  \<open>cleanVtt.split(/\n\n+/)\<close>: a separator is a maximal run of two or more line feeds.
\<close>

function splitBlocks :: "jsstring \<Rightarrow> jsstring list" where
  "splitBlocks [] = [[]]"
| "splitBlocks (c # s) =
     (if c = 10 \<and> s \<noteq> [] \<and> hd s = 10
      then [] # splitBlocks (dropWhile (\<lambda>x. x = 10) s)
      else (case splitBlocks s of
              [] \<Rightarrow> [[c]]
            | b # bs \<Rightarrow> (c # b) # bs))"
  by pat_completeness auto
termination
  by (relation "measure length") (auto simp: less_Suc_eq_le length_dropWhile_le)

text \<open>\<open>line.replace(/\./g, ',')\<close>\<close>

definition replaceDots :: "jsstring \<Rightarrow> jsstring" where
  "replaceDots l = map (\<lambda>c. if c = 46 then 44 else c) l"

text \<open>The function mapped over the blocks (lines 49 to 61 of fileHelpers.ts).\<close>

definition convertBlock :: "jsstring \<Rightarrow> jsstring" where
  "convertBlock block =
     (let lines = split_js 10 block in
      case findIndex (\<lambda>l. includes_js l (js ''-->'')) lines of
        None \<Rightarrow> []
      | Some timeIdx \<Rightarrow> join_js [10] (lines[timeIdx := replaceDots (lines ! timeIdx)]))"

definition vttToSrt :: "jsstring \<Rightarrow> jsstring" where
  "vttToSrt vtt =
     (if vtt = [] then []
      else (let cleanVtt = stripHeader vtt;
                blocks = splitBlocks cleanVtt
            in join_js [10, 10] (filter (\<lambda>b. trim b \<noteq> []) (map convertBlock blocks))))"

text \<open>A block has a time line when one of its lines contains the token \<open>-->\<close>.\<close>

definition hasTimeLine :: "jsstring \<Rightarrow> bool" where
  "hasTimeLine block = (\<exists>l \<in> set (split_js 10 block). includes_js l (js ''-->''))"

text \<open>
  Two notions for reasoning about blocks: a string without two line feeds in a row, and
  two strings that have their line feeds at the same places.
\<close>

fun nnFree :: "jsstring \<Rightarrow> bool" where
  "nnFree (a # b # s) = (\<not> (a = 10 \<and> b = 10) \<and> nnFree (b # s))"
| "nnFree s = True"

definition sameNL :: "jsstring \<Rightarrow> jsstring \<Rightarrow> bool" where
  "sameNL c b = list_all2 (\<lambda>x y. (x = 10) = (y = 10)) c b"

subsection \<open>Example inputs\<close>

text \<open>
  Two transcripts whose lines end in carriage return and line feed: a header and two
  cues, and a header, a note and one cue. Code unit 13 is the carriage return, 10 the
  line feed.
\<close>

definition ex_crlf_two_cues :: jsstring where
  "ex_crlf_two_cues =
     js ''WEBVTT'' @ [13, 10, 13, 10] @
     js ''0.1 --> 0.2'' @ [13, 10] @ js ''Hi'' @ [13, 10, 13, 10] @
     js ''0.2 --> 0.3'' @ [13, 10] @ js ''Yo''"

definition ex_crlf_note :: jsstring where
  "ex_crlf_note =
     js ''WEBVTT'' @ [13, 10, 13, 10] @
     js ''NOTE comment'' @ [13, 10, 13, 10] @
     js ''0.1 --> 0.2'' @ [13, 10] @ js ''Hi''"

section \<open>The transcription call (src/services/geminiService.ts)\<close>

text \<open>
  A rejected promise or a thrown error is kept as its \<open>message\<close>, \<open>None\<close> when the
  value thrown has none. The call of the model is a parameter \<open>generateContent\<close>, from
  the media type and the encoded bytes to what the promise settles with: a response
  whose \<open>text\<close> may be undefined, or a rejection.
\<close>

type_synonym JsError = "jsstring option"

datatype ApiResult = ApiResolved "jsstring option" | ApiRejected JsError

definition generateSubtitles ::
  "jsstring \<Rightarrow> (jsstring \<Rightarrow> jsstring \<Rightarrow> ApiResult) \<Rightarrow> jsstring \<Rightarrow> jsstring \<Rightarrow> JsError + jsstring" where
  "generateSubtitles API_KEY generateContent base64Audio mimeType =
     (if API_KEY = []
      then Inl (Some (js ''API Key is missing. Please check your environment configuration.''))
      else (case generateContent mimeType base64Audio of
              ApiRejected e \<Rightarrow> Inl e
            | ApiResolved None \<Rightarrow> Inl (Some (js ''No text generated from the model.''))
            | ApiResolved (Some text) \<Rightarrow>
                if text = [] then Inl (Some (js ''No text generated from the model.''))
                else Inr (trim (removeAll_js (=) (js ''```'')
                                  (removeAll_js eqIgnoreCase (js ''```vtt'') text)))))"

section \<open>The queue (src/App.tsx)\<close>

record File =
  name :: jsstring
  type :: jsstring

datatype Status = Idle | Processing | Completed | Error

record QueueItem =
  id_q :: jsstring
  file_q :: File
  status :: Status
  subtitles :: "jsstring option"
  error :: "jsstring option"

text \<open>
  The component state: the queue and the flag \<open>isProcessing\<close>. The selected item only
  steers the display and is left out.
\<close>

record AppState =
  queue :: "QueueItem list"
  isProcessing :: bool

text \<open>
  \<open>handleFilesSelect\<close>. The identifier of a new item is
  \<open>Math.random().toString(36).substring(2, 9)\<close>; each file comes paired with the string
  drawn for it.
\<close>

definition handleFilesSelect :: "(jsstring \<times> File) list \<Rightarrow> AppState \<Rightarrow> AppState" where
  "handleFilesSelect drawn s =
     s\<lparr>queue := queue s @
          map (\<lambda>(i, f). \<lparr>id_q = i, file_q = f, status = Idle, subtitles = None, error = None\<rparr>)
            drawn\<rparr>"

text \<open>
  \<open>processNextItem\<close> up to its first \<open>await\<close> (lines 32 to 41): nothing happens while
  \<open>isProcessing\<close> holds or no item is idle; otherwise the flag is set, every item that
  carries the identifier of the item found is marked, and the item found goes to the
  transcription call.
\<close>

definition processNextItem_start :: "AppState \<Rightarrow> (QueueItem \<times> AppState) option" where
  "processNextItem_start s =
     (if isProcessing s then None
      else (case find (\<lambda>item. status item = Idle) (queue s) of
              None \<Rightarrow> None
            | Some nextItem \<Rightarrow>
                Some (nextItem,
                  s\<lparr>isProcessing := True,
                    queue := map (\<lambda>q. if id_q q = id_q nextItem
                                        then q\<lparr>status := Processing\<rparr> else q) (queue s)\<rparr>)))"

text \<open>How the \<open>try\<close> block ends: with the generated text, or with an error caught.\<close>

datatype Outcome = Fulfilled jsstring | Rejected JsError

text \<open>\<open>error.message || 'Processing failed'\<close>\<close>

definition messageOr :: "JsError \<Rightarrow> jsstring \<Rightarrow> jsstring" where
  "messageOr e d = (case e of None \<Rightarrow> d | Some m \<Rightarrow> if m = [] then d else m)"

text \<open>
  \<open>processNextItem\<close> behind the \<open>await\<close> (lines 47 to 62), when the call made for
  \<open>nextItem\<close> has settled.
\<close>

definition processNextItem_settle :: "QueueItem \<Rightarrow> Outcome \<Rightarrow> AppState \<Rightarrow> AppState" where
  "processNextItem_settle nextItem r s =
     (case r of
        Fulfilled generatedText \<Rightarrow>
          s\<lparr>queue := map (\<lambda>q. if id_q q = id_q nextItem
                              then q\<lparr>status := Completed, subtitles := Some generatedText\<rparr>
                              else q) (queue s),
            isProcessing := False\<rparr>
      | Rejected e \<Rightarrow>
          s\<lparr>queue := map (\<lambda>q. if id_q q = id_q nextItem
                              then q\<lparr>status := Error,
                                     error := Some (messageOr e (js ''Processing failed''))\<rparr>
                              else q) (queue s),
            isProcessing := False\<rparr>)"

text \<open>
  The \<open>try\<close> block itself (lines 44 and 45): the file is encoded, then transcribed.
  \<open>fileToBase64\<close> reads the file and is a parameter.
\<close>

definition runJob ::
  "jsstring \<Rightarrow> (File \<Rightarrow> JsError + jsstring) \<Rightarrow> (jsstring \<Rightarrow> jsstring \<Rightarrow> ApiResult) \<Rightarrow> QueueItem \<Rightarrow> Outcome" where
  "runJob API_KEY fileToBase64 generateContent nextItem =
     (case fileToBase64 (file_q nextItem) of
        Inl e \<Rightarrow> Rejected e
      | Inr base64 \<Rightarrow>
          (case generateSubtitles API_KEY generateContent base64 (type (file_q nextItem)) of
             Inl e \<Rightarrow> Rejected e
           | Inr generatedText \<Rightarrow> Fulfilled generatedText))"

definition removeItem :: "jsstring \<Rightarrow> AppState \<Rightarrow> AppState" where
  "removeItem i s = s\<lparr>queue := filter (\<lambda>q. id_q q \<noteq> i) (queue s)\<rparr>"

definition handleRetry :: "jsstring \<Rightarrow> AppState \<Rightarrow> AppState" where
  "handleRetry i s =
     s\<lparr>queue := map (\<lambda>q. if id_q q = i
                         then q\<lparr>status := Idle, error := None, subtitles := None\<rparr>
                         else q) (queue s)\<rparr>"

definition reset :: "AppState \<Rightarrow> AppState" where
  "reset s = s\<lparr>queue := [], isProcessing := False\<rparr>"

subsection \<open>Runs of the component\<close>

text \<open>
  Besides the component state, the world holds the transcription calls that have not
  settled yet, each with the item its closure captured. An event is a selection of
  files, a run of the effect, the settling of a pending call, or a click on retry, remove
  or clear.
\<close>

record World =
  app :: AppState
  pending :: "QueueItem list"

datatype Event =
    FilesSelect "(jsstring \<times> File) list"
  | Effect
  | Settle nat Outcome
  | Retry jsstring
  | Remove jsstring
  | Reset

fun step :: "Event \<Rightarrow> World \<Rightarrow> World" where
  "step (FilesSelect drawn) w = w\<lparr>app := handleFilesSelect drawn (app w)\<rparr>"
| "step Effect w =
     (case processNextItem_start (app w) of
        None \<Rightarrow> w
      | Some (nextItem, s') \<Rightarrow> \<lparr>app = s', pending = pending w @ [nextItem]\<rparr>)"
| "step (Settle k r) w =
     (if k < length (pending w)
      then \<lparr>app = processNextItem_settle (pending w ! k) r (app w),
            pending = take k (pending w) @ drop (Suc k) (pending w)\<rparr>
      else w)"
| "step (Retry i) w = w\<lparr>app := handleRetry i (app w)\<rparr>"
| "step (Remove i) w = w\<lparr>app := removeItem i (app w)\<rparr>"
| "step Reset w = w\<lparr>app := reset (app w)\<rparr>"

text \<open>
  What the rendered page lets happen: the uploader is shown for an empty queue only and
  is disabled while \<open>isProcessing\<close> holds; the retry button is rendered for an item
  that is completed or failed, the remove button for an item that is not processing, the
  clear button beside a queue that is not empty.
\<close>

fun enabled :: "Event \<Rightarrow> World \<Rightarrow> bool" where
  "enabled (FilesSelect drawn) w =
     (queue (app w) = [] \<and> \<not> isProcessing (app w) \<and> drawn \<noteq> [])"
| "enabled Effect w = True"
| "enabled (Settle k r) w = (k < length (pending w))"
| "enabled (Retry i) w =
     (\<exists>q \<in> set (queue (app w)). id_q q = i \<and> (status q = Error \<or> status q = Completed))"
| "enabled (Remove i) w =
     (\<exists>q \<in> set (queue (app w)). id_q q = i \<and> status q \<noteq> Processing)"
| "enabled Reset w = (queue (app w) \<noteq> [])"

fun run :: "Event list \<Rightarrow> World \<Rightarrow> World" where
  "run [] w = w"
| "run (ev # evs) w = run evs (step ev w)"

fun feasible :: "Event list \<Rightarrow> World \<Rightarrow> bool" where
  "feasible [] w = True"
| "feasible (ev # evs) w = (enabled ev w \<and> feasible evs (step ev w))"

definition initial :: World where
  "initial = \<lparr>app = \<lparr>queue = [], isProcessing = False\<rparr>, pending = []\<rparr>"

definition processingCount :: "AppState \<Rightarrow> nat" where
  "processingCount s = length (filter (\<lambda>q. status q = Processing) (queue s))"

text \<open>The identifiers an event draws, and the identifiers of the queue in order.\<close>

fun drawnIds :: "Event \<Rightarrow> jsstring list" where
  "drawnIds (FilesSelect drawn) = map fst drawn"
| "drawnIds ev = []"

definition ids :: "World \<Rightarrow> jsstring list" where
  "ids w = map id_q (queue (app w))"

text \<open>
  Along a run, every selection of files draws identifiers that differ from each other
  and from those in the queue at that moment.
\<close>

fun freshDraws :: "Event list \<Rightarrow> World \<Rightarrow> bool" where
  "freshDraws [] w = True"
| "freshDraws (ev # evs) w =
     (distinct (drawnIds ev) \<and> set (drawnIds ev) \<inter> set (ids w) = {}
      \<and> freshDraws evs (step ev w))"

subsection \<open>Example data\<close>

definition ex_file :: "string \<Rightarrow> File" where
  "ex_file n = \<lparr>name = js n, type = js ''audio/mpeg''\<rparr>"

definition ex_item :: "string \<Rightarrow> Status \<Rightarrow> QueueItem" where
  "ex_item i st =
     \<lparr>id_q = js i, file_q = ex_file ''a.mp3'', status = st, subtitles = None, error = None\<rparr>"

text \<open>
  One file is selected and its call starts; the queue is cleared while the call is
  pending; two files are selected and the call of the first starts; the call of the
  cleared item settles. The effect runs after every change of state.
\<close>

definition ex_clear_run :: "Event list" where
  "ex_clear_run =
     [FilesSelect [(js ''a'', ex_file ''a.mp3'')], Effect,
      Reset, Effect,
      FilesSelect [(js ''b'', ex_file ''b.mp3''), (js ''c'', ex_file ''c.mp3'')], Effect, Effect,
      Settle 0 (Fulfilled (js ''WEBVTT'')), Effect]"

definition ex_world :: World where
  "ex_world =
     \<lparr>app = \<lparr>queue = [(ex_item ''a'' Completed)\<lparr>subtitles := Some (js ''WEBVTT'')\<rparr>,
                      ex_item ''b'' Idle, ex_item ''c'' Idle],
             isProcessing = False\<rparr>,
      pending = []\<rparr>"

text \<open>The call made for item \<open>a\<close> is pending; its closure holds the item as it was found.\<close>

definition ex_busy_world :: World where
  "ex_busy_world =
     \<lparr>app = \<lparr>queue = [ex_item ''a'' Processing, ex_item ''b'' Idle], isProcessing = True\<rparr>,
      pending = [ex_item ''a'' Idle]\<rparr>"

section \<open>Properties of the queue\<close>

lemma js_simps: "js [] = []" "js (c # cs) = of_char c # js cs"
  by (simp_all add: js_def)

lemma map_mark_distinct:
  "distinct (map id_q xs) \<Longrightarrow> k < length xs \<Longrightarrow>
   map (\<lambda>q. if id_q q = id_q (xs ! k) then f q else q) xs = xs[k := f (xs ! k)]"
proof (rule nth_equalityI)
  show "length (map (\<lambda>q. if id_q q = id_q (xs ! k) then f q else q) xs) = length (xs[k := f (xs ! k)])"
    by simp
next
  fix j
  assume d: "distinct (map id_q xs)" and k: "k < length xs"
    and j: "j < length (map (\<lambda>q. if id_q q = id_q (xs ! k) then f q else q) xs)"
  then have jl: "j < length xs" by simp
  have "id_q (xs ! j) = id_q (xs ! k) \<longleftrightarrow> j = k"
    using d jl k by (metis distinct_conv_nth length_map nth_map)
  then show "map (\<lambda>q. if id_q q = id_q (xs ! k) then f q else q) xs ! j = xs[k := f (xs ! k)] ! j"
    using jl k by (simp add: nth_list_update)
qed

lemma ids_step:
  "ids (step ev w) =
     (case ev of
        FilesSelect drawn \<Rightarrow> ids w @ map fst drawn
      | Remove i \<Rightarrow> filter (\<lambda>x. x \<noteq> i) (ids w)
      | Reset \<Rightarrow> []
      | _ \<Rightarrow> ids w)"
proof (cases ev)
  case (FilesSelect drawn)
  then show ?thesis
    by (simp add: ids_def handleFilesSelect_def split_beta comp_def)
next
  case Effect
  have "map id_q (map (\<lambda>q. if id_q q = i then q\<lparr>status := Processing\<rparr> else q) qs) = map id_q qs"
    for i qs
    by (induction qs) auto
  then show ?thesis using Effect
    by (auto simp: ids_def processNextItem_start_def split: option.splits)
next
  case (Settle k r)
  have "map id_q (map (\<lambda>q. if id_q q = i then f q else q) qs) = map id_q qs"
    if "\<And>q. id_q (f q) = id_q q" for i f and qs :: "QueueItem list"
    using that by (induction qs) auto
  then show ?thesis using Settle
    by (auto simp: ids_def processNextItem_settle_def comp_def split: Outcome.splits)
next
  case (Retry i)
  have "map id_q (map (\<lambda>q. if id_q q = i
                             then q\<lparr>status := Idle, error := None, subtitles := None\<rparr>
                             else q) qs) = map id_q qs" for qs
    by (induction qs) auto
  then show ?thesis using Retry by (simp add: ids_def handleRetry_def)
next
  case (Remove i)
  then show ?thesis by (simp add: ids_def removeItem_def filter_map comp_def)
next
  case Reset
  then show ?thesis by (simp add: ids_def reset_def)
qed

lemma distinct_step:
  "distinct (ids w) \<Longrightarrow> distinct (drawnIds ev) \<Longrightarrow> set (drawnIds ev) \<inter> set (ids w) = {}
   \<Longrightarrow> distinct (ids (step ev w))"
  by (cases ev) (auto simp: ids_step simp del: step.simps)

lemma distinct_run:
  "distinct (ids w) \<Longrightarrow> freshDraws evs w \<Longrightarrow> distinct (ids (run evs w))"
  by (induction evs arbitrary: w) (auto simp: distinct_step simp del: step.simps)




text \<open>
  C1. The claim: in every reachable state at most one item is processing. The run
  \<open>ex_clear_run\<close> is one the page allows, and it ends with two items processing:
  \<open>reset\<close> lowers \<open>isProcessing\<close> while a call is pending, and when that call settles it
  lowers the flag again, now under the call made for the next item.
\<close>

theorem reset_breaks_single_flight:
  "feasible ex_clear_run initial
   \<and> map id_q (queue (app (run ex_clear_run initial))) = [js ''b'', js ''c'']
   \<and> map status (queue (app (run ex_clear_run initial))) = [Processing, Processing]
   \<and> processingCount (app (run ex_clear_run initial)) = 2
   \<and> length (pending (run ex_clear_run initial)) = 2"
  by (simp add: ex_clear_run_def ex_file_def initial_def handleFilesSelect_def
      processNextItem_start_def processNextItem_settle_def reset_def processingCount_def
      js_simps)

text \<open>
  C2. When the effect runs with \<open>isProcessing\<close> false and an idle item in the queue, the
  item handed to the transcription call is the first idle item of the queue; that item
  is marked processing, the flag is raised, and an item with another identifier is left
  as it was. With pairwise distinct identifiers the first idle item is the only one that
  changes.
\<close>

theorem dispatch_earliest_idle:
  assumes "\<not> isProcessing (app w)"
    and "\<exists>q \<in> set (queue (app w)). status q = Idle"
  shows "\<exists>i nextItem s'.
           processNextItem_start (app w) = Some (nextItem, s')
         \<and> step Effect w = \<lparr>app = s', pending = pending w @ [nextItem]\<rparr>
         \<and> i < length (queue (app w))
         \<and> nextItem = queue (app w) ! i
         \<and> status nextItem = Idle
         \<and> (\<forall>j < i. status (queue (app w) ! j) \<noteq> Idle)
         \<and> isProcessing s'
         \<and> length (queue s') = length (queue (app w))
         \<and> status (queue s' ! i) = Processing
         \<and> (\<forall>j < length (queue (app w)).
               id_q (queue (app w) ! j) \<noteq> id_q nextItem \<longrightarrow> queue s' ! j = queue (app w) ! j)
         \<and> (distinct (map id_q (queue (app w))) \<longrightarrow>
               queue s' = (queue (app w))[i := nextItem\<lparr>status := Processing\<rparr>])"
proof -
  let ?qs = "queue (app w)"
  from assms(2) obtain x where "find (\<lambda>item. status item = Idle) ?qs = Some x"
    by (cases "find (\<lambda>item. status item = Idle) ?qs") (auto simp: find_None_iff)
  then obtain i where i: "i < length ?qs" "status (?qs ! i) = Idle"
    "\<forall>j < i. status (?qs ! j) \<noteq> Idle"
    and f: "find (\<lambda>item. status item = Idle) ?qs = Some (?qs ! i)"
    by (auto simp: find_Some_iff)
  let ?s' = "(app w)\<lparr>isProcessing := True,
                queue := map (\<lambda>q. if id_q q = id_q (?qs ! i)
                                   then q\<lparr>status := Processing\<rparr> else q) ?qs\<rparr>"
  have st: "processNextItem_start (app w) = Some (?qs ! i, ?s')"
    using assms(1) f by (simp add: processNextItem_start_def)
  have d: "distinct (map id_q ?qs) \<longrightarrow> queue ?s' = ?qs[i := (?qs ! i)\<lparr>status := Processing\<rparr>]"
    using i(1) by (simp add: map_mark_distinct)
  show ?thesis
    apply (rule exI[of _ i], rule exI[of _ "?qs ! i"], rule exI[of _ ?s'])
    using st i d by simp
qed

theorem dispatch_earliest_idle_witness:
  "\<not> isProcessing (app ex_world)
   \<and> status (queue (app ex_world) ! 1) = Idle
   \<and> (\<exists>nextItem s'. processNextItem_start (app ex_world) = Some (nextItem, s')
        \<and> nextItem = ex_item ''b'' Idle
        \<and> map status (queue s') = [Completed, Processing, Idle])"
proof -
  have h1: "\<not> isProcessing (app ex_world)"
    by (simp add: ex_world_def)
  have h2: "\<exists>q \<in> set (queue (app ex_world)). status q = Idle"
    by (simp add: ex_world_def ex_item_def)
  show ?thesis
    using dispatch_earliest_idle[OF h1 h2]
    by (simp (no_asm) add: ex_world_def ex_item_def processNextItem_start_def js_simps)
qed

text \<open>
  C3, as amended. \<open>handleRetry\<close> looks at the identifier only: the item with the
  identifier given becomes idle and loses its result and its failure whatever its status
  was, completed, failed or processing, and every item with another identifier is left
  as it was. On an idle item that has neither result nor failure this changes nothing.
  That an idle or processing item is not retried is the page's doing: the retry button
  is rendered for completed and failed items only.
\<close>

theorem handleRetry_resets_whatever_status:
  assumes "k < length (queue (app w))" and "id_q (queue (app w) ! k) = i"
  shows "length (queue (handleRetry i (app w))) = length (queue (app w))
       \<and> isProcessing (handleRetry i (app w)) = isProcessing (app w)
       \<and> queue (handleRetry i (app w)) ! k
           = (queue (app w) ! k)\<lparr>status := Idle, error := None, subtitles := None\<rparr>
       \<and> (\<forall>j < length (queue (app w)).
             id_q (queue (app w) ! j) \<noteq> i \<longrightarrow> queue (handleRetry i (app w)) ! j = queue (app w) ! j)
       \<and> (distinct (ids w) \<and> status (queue (app w) ! k) = Idle
            \<and> subtitles (queue (app w) ! k) = None \<and> error (queue (app w) ! k) = None
          \<longrightarrow> handleRetry i (app w) = app w)
       \<and> (distinct (ids w)
            \<and> (status (queue (app w) ! k) = Idle \<or> status (queue (app w) ! k) = Processing)
          \<longrightarrow> \<not> enabled (Retry i) w)"
proof -
  let ?qs = "queue (app w)"
  have a: "handleRetry i (app w) = app w"
    if d: "distinct (ids w)" and e: "status (?qs ! k) = Idle"
      "subtitles (?qs ! k) = None" "error (?qs ! k) = None"
  proof -
    have "(?qs ! k)\<lparr>status := Idle, error := None, subtitles := None\<rparr> = ?qs ! k"
      using e by simp
    moreover have "distinct (map id_q ?qs)" using d by (simp add: ids_def)
    ultimately have "map (\<lambda>q. if id_q q = id_q (?qs ! k)
                         then q\<lparr>status := Idle, error := None, subtitles := None\<rparr> else q) ?qs
               = ?qs"
      using map_mark_distinct[OF _ assms(1),
          of "\<lambda>q. q\<lparr>status := Idle, error := None, subtitles := None\<rparr>"]
      by simp
    then show ?thesis using assms(2) by (simp add: handleRetry_def)
  qed
  have b: "\<not> enabled (Retry i) w"
    if d: "distinct (ids w)" and e: "status (?qs ! k) = Idle \<or> status (?qs ! k) = Processing"
  proof
    assume "enabled (Retry i) w"
    then obtain q where q: "q \<in> set ?qs" "id_q q = i" "status q = Error \<or> status q = Completed"
      by auto
    then obtain j where j: "j < length ?qs" "?qs ! j = q"
      by (auto simp: in_set_conv_nth)
    have "distinct (map id_q ?qs)" using d by (simp add: ids_def)
    then have "j = k"
      using j q(2) assms by (metis distinct_conv_nth length_map nth_map)
    then show False using e q(3) j(2) by auto
  qed
  show ?thesis using assms a b by (simp add: handleRetry_def)
qed

theorem handleRetry_resets_whatever_status_witness:
  "0 < length (queue (app ex_world))
   \<and> id_q (queue (app ex_world) ! 0) = js ''a''
   \<and> status (queue (app ex_world) ! 0) = Completed
   \<and> subtitles (queue (app ex_world) ! 0) = Some (js ''WEBVTT'')
   \<and> queue (handleRetry (js ''a'') (app ex_world)) ! 0 = ex_item ''a'' Idle
   \<and> queue (handleRetry (js ''a'') (app ex_world)) ! 1 = queue (app ex_world) ! 1"
proof -
  have h1: "0 < length (queue (app ex_world))"
    by (simp add: ex_world_def)
  have h2: "id_q (queue (app ex_world) ! 0) = js ''a''"
    by (simp add: ex_world_def ex_item_def)
  show ?thesis
    using handleRetry_resets_whatever_status[OF h1 h2]
    by (simp add: ex_world_def ex_item_def js_simps)
qed

text \<open>
  The claim as stated fails on a processing item: \<open>handleRetry\<close> makes it idle.
\<close>

theorem handleRetry_processing_counterexample:
  "status (queue (app ex_busy_world) ! 0) = Processing
   \<and> id_q (queue (app ex_busy_world) ! 0) = js ''a''
   \<and> queue (handleRetry (js ''a'') (app ex_busy_world)) = [ex_item ''a'' Idle, ex_item ''b'' Idle]
   \<and> queue (handleRetry (js ''a'') (app ex_busy_world)) \<noteq> queue (app ex_busy_world)"
  by (simp add: ex_busy_world_def ex_item_def handleRetry_def js_simps)



text \<open>
  C7. The claim: a call that returns empty text leaves the item failed. The check for
  empty text in \<open>generateSubtitles\<close> comes before the fences are removed and the text
  is trimmed, so a response that holds a fence only passes it, the function returns the
  empty string, and the item is completed with the empty string as its subtitles.
\<close>

theorem fence_only_response_completes_empty:
  "generateSubtitles (js ''key'')
      (\<lambda>mimeType data. ApiResolved (Some (js ''```vtt\<newline>```'')))
      (js ''QUJD'') (js ''audio/mpeg'') = Inr []
   \<and> runJob (js ''key'') (\<lambda>f. Inr (js ''QUJD''))
      (\<lambda>mimeType data. ApiResolved (Some (js ''```vtt\<newline>```'')))
      (ex_item ''a'' Idle) = Fulfilled []
   \<and> queue (processNextItem_settle (ex_item ''a'' Idle)
        (runJob (js ''key'') (\<lambda>f. Inr (js ''QUJD''))
           (\<lambda>mimeType data. ApiResolved (Some (js ''```vtt\<newline>```'')))
           (ex_item ''a'' Idle))
        (app ex_busy_world))
     = [(ex_item ''a'' Completed)\<lparr>subtitles := Some []\<rparr>, ex_item ''b'' Idle]"
  by (simp add: generateSubtitles_def runJob_def processNextItem_settle_def ex_busy_world_def
      ex_item_def ex_file_def js_simps trim_def isWhiteSpace_def eqIgnoreCase_def
      canonicalize_def)

text \<open>
  C9, as amended. No operation writes the identifier of an item: a selection of files
  appends the identifiers drawn, a removal deletes the identifier removed, clearing
  deletes all, and every other event leaves the list of identifiers as it is. Nothing
  compares a drawn identifier with those in the queue, so the identifiers of a reachable
  queue are pairwise distinct as long as the draws are fresh.
\<close>

theorem ids_distinct_when_draws_fresh:
  "(freshDraws evs initial \<longrightarrow> distinct (ids (run evs initial)))
   \<and> ids (step ev w) =
       (case ev of
          FilesSelect drawn \<Rightarrow> ids w @ map fst drawn
        | Remove i \<Rightarrow> filter (\<lambda>x. x \<noteq> i) (ids w)
        | Reset \<Rightarrow> []
        | _ \<Rightarrow> ids w)"
proof -
  have "distinct (ids initial)" by (simp add: ids_def initial_def)
  then show ?thesis using distinct_run ids_step by blast
qed

theorem ids_distinct_when_draws_fresh_witness:
  "freshDraws [FilesSelect [(js ''a'', ex_file ''a.mp3''), (js ''b'', ex_file ''b.mp3'')],
               Effect, Remove (js ''b'')] initial
   \<and> distinct (ids (run [FilesSelect [(js ''a'', ex_file ''a.mp3''), (js ''b'', ex_file ''b.mp3'')],
               Effect, Remove (js ''b'')] initial))
   \<and> ids (run [FilesSelect [(js ''a'', ex_file ''a.mp3''), (js ''b'', ex_file ''b.mp3'')],
               Effect, Remove (js ''b'')] initial) = [js ''a'']"
proof -
  have h: "freshDraws [FilesSelect [(js ''a'', ex_file ''a.mp3''), (js ''b'', ex_file ''b.mp3'')],
               Effect, Remove (js ''b'')] initial"
    by (simp add: initial_def ids_def handleFilesSelect_def processNextItem_start_def js_simps)
  have v: "ids (run [FilesSelect [(js ''a'', ex_file ''a.mp3''), (js ''b'', ex_file ''b.mp3'')],
               Effect, Remove (js ''b'')] initial) = [js ''a'']"
    by (simp add: initial_def ids_def handleFilesSelect_def processNextItem_start_def
        removeItem_def js_simps)
  from ids_distinct_when_draws_fresh[of
      "[FilesSelect [(js ''a'', ex_file ''a.mp3''), (js ''b'', ex_file ''b.mp3'')],
        Effect, Remove (js ''b'')]" Effect initial] h
  have "distinct (ids (run [FilesSelect [(js ''a'', ex_file ''a.mp3''), (js ''b'', ex_file ''b.mp3'')],
               Effect, Remove (js ''b'')] initial))"
    by blast
  with h v show ?thesis by blast
qed

text \<open>
  The claim as stated fails when two draws of one selection give the same string: both
  items enter the queue under it.
\<close>

theorem equal_draws_counterexample:
  "feasible [FilesSelect [(js ''k'', ex_file ''a.mp3''), (js ''k'', ex_file ''b.mp3'')]] initial
   \<and> ids (run [FilesSelect [(js ''k'', ex_file ''a.mp3''), (js ''k'', ex_file ''b.mp3'')]] initial)
       = [js ''k'', js ''k'']
   \<and> \<not> distinct (ids (run [FilesSelect [(js ''k'', ex_file ''a.mp3''),
                                         (js ''k'', ex_file ''b.mp3'')]] initial))"
  by (simp add: initial_def ids_def handleFilesSelect_def)

section \<open>Properties of the converter\<close>

subsection \<open>Lines\<close>

lemma arrow_js: "js ''-->'' = [45, 45, 62]"
  by (simp add: js_def)

lemma split_js_not_Nil [simp]: "split_js sep s \<noteq> []"
  by (induction s) (auto split: list.splits)

lemma join_split_js: "join_js [sep] (split_js sep s) = s"
proof (induction s)
  case Nil
  then show ?case by simp
next
  case (Cons c s)
  obtain l ls where r: "split_js sep s = l # ls"
    by (cases "split_js sep s") auto
  show ?case
  proof (cases "c = sep")
    case True
    then show ?thesis using Cons r by simp
  next
    case False
    then show ?thesis using Cons r by (cases ls) auto
  qed
qed

lemma split_js_lines_free: "l \<in> set (split_js sep s) \<Longrightarrow> sep \<notin> set l"
proof (induction s arbitrary: l)
  case Nil
  then show ?case by simp
next
  case (Cons c s)
  obtain l' ls where r: "split_js sep s = l' # ls"
    by (cases "split_js sep s") auto
  then have "sep \<notin> set l'" and "\<forall>x \<in> set ls. sep \<notin> set x"
    using Cons.IH by auto
  then show ?case using Cons.prems r by (auto split: if_splits)
qed

lemma split_js_free: "sep \<notin> set l \<Longrightarrow> split_js sep l = [l]"
  by (induction l) auto

lemma split_js_append:
  "sep \<notin> set l \<Longrightarrow> split_js sep (l @ sep # r) = l # split_js sep r"
  by (induction l) auto

lemma split_join_js:
  "ls \<noteq> [] \<Longrightarrow> \<forall>l \<in> set ls. sep \<notin> set l \<Longrightarrow> split_js sep (join_js [sep] ls) = ls"
proof (induction ls)
  case Nil
  then show ?case by simp
next
  case (Cons x xs)
  then show ?case
    by (cases xs) (simp_all add: split_js_free split_js_append)
qed

lemma dropWhile_all_iff: "(\<forall>x \<in> set (dropWhile P s). P x) \<longleftrightarrow> (\<forall>x \<in> set s. P x)"
proof
  assume a: "\<forall>x \<in> set (dropWhile P s). P x"
  have "dropWhile P s = []"
  proof (rule ccontr)
    assume n: "dropWhile P s \<noteq> []"
    then have "\<not> P (hd (dropWhile P s))" by (rule hd_dropWhile)
    moreover have "hd (dropWhile P s) \<in> set (dropWhile P s)" using n by simp
    ultimately show False using a by blast
  qed
  then show "\<forall>x \<in> set s. P x" by (simp add: dropWhile_eq_Nil_conv)
next
  assume "\<forall>x \<in> set s. P x"
  then show "\<forall>x \<in> set (dropWhile P s). P x" by (meson set_dropWhileD)
qed

lemma trim_Nil_iff: "trim s = [] \<longleftrightarrow> (\<forall>c \<in> set s. isWhiteSpace c)"
  by (simp add: trim_def dropWhile_eq_Nil_conv dropWhile_all_iff)

lemma includes_js_set: "includes_js l pat \<Longrightarrow> set pat \<subseteq> set l"
proof (induction l)
  case Nil
  then show ?case by simp
next
  case (Cons a l)
  from Cons.prems have "prefix pat (a # l) \<or> includes_js l pat" by simp
  then show ?case
  proof
    assume "prefix pat (a # l)"
    then show ?thesis by (rule set_mono_prefix)
  next
    assume "includes_js l pat"
    then show ?thesis using Cons.IH by auto
  qed
qed

lemma includes_arrow_not_blank: "includes_js l (js ''-->'') \<Longrightarrow> \<exists>c \<in> set l. \<not> isWhiteSpace c"
proof -
  assume "includes_js l (js ''-->'')"
  then have "45 \<in> set l" using includes_js_set[of l "js ''-->''"] by (simp add: arrow_js)
  moreover have "\<not> isWhiteSpace 45" by (simp add: isWhiteSpace_def)
  ultimately show ?thesis by blast
qed

lemma prefix_arrow_replaceDots:
  "prefix [45, 45, 62] (replaceDots s) = prefix [45, 45, 62] s"
proof (cases s)
  case Nil
  then show ?thesis by (simp add: replaceDots_def)
next
  case (Cons a s1)
  show ?thesis
  proof (cases s1)
    case Nil
    then show ?thesis using Cons by (simp add: replaceDots_def)
  next
    case (Cons b s2)
    show ?thesis
    proof (cases s2)
      case Nil
      then show ?thesis using \<open>s = a # s1\<close> \<open>s1 = b # s2\<close> by (simp add: replaceDots_def)
    next
      case (Cons c s3)
      then show ?thesis using \<open>s = a # s1\<close> \<open>s1 = b # s2\<close> by (simp add: replaceDots_def)
    qed
  qed
qed

lemma replaceDots_Cons: "replaceDots (c # l) = (if c = 46 then 44 else c) # replaceDots l"
  by (simp add: replaceDots_def)

lemma includes_arrow_replaceDots:
  "includes_js (replaceDots l) (js ''-->'') = includes_js l (js ''-->'')"
proof (induction l)
  case Nil
  then show ?case by (simp add: replaceDots_def)
next
  case (Cons c l)
  have "prefix [45, 45, 62] (replaceDots (c # l)) = prefix [45, 45, 62] (c # l)"
    by (rule prefix_arrow_replaceDots)
  then show ?case using Cons
    by (simp add: arrow_js replaceDots_Cons del: Cons_prefix_Cons)
qed

lemma replaceDots_idem: "replaceDots (replaceDots l) = replaceDots l"
  by (simp add: replaceDots_def)

lemma replaceDots_no_dot: "46 \<notin> set (replaceDots l)"
  by (auto simp: replaceDots_def)

lemma replaceDots_keeps_nl: "10 \<in> set (replaceDots l) \<longleftrightarrow> 10 \<in> set l"
  by (auto simp: replaceDots_def split: if_splits)

lemma findIndex_None_iff: "findIndex P xs = None \<longleftrightarrow> (\<forall>x \<in> set xs. \<not> P x)"
  by (induction xs) auto

lemma findIndex_Some_iff:
  "findIndex P xs = Some i \<longleftrightarrow> i < length xs \<and> P (xs ! i) \<and> (\<forall>j < i. \<not> P (xs ! j))"
proof (induction xs arbitrary: i)
  case Nil
  then show ?case by simp
next
  case (Cons x xs)
  show ?case
  proof (cases "P x")
    case True
    then show ?thesis by (cases i) auto
  next
    case False
    show ?thesis
    proof (cases i)
      case 0
      then show ?thesis using False by auto
    next
      case (Suc k)
      have "(\<forall>j < Suc k. \<not> P ((x # xs) ! j)) \<longleftrightarrow> (\<forall>j < k. \<not> P (xs ! j))"
        using False by (auto simp: less_Suc_eq_0_disj)
      then show ?thesis using False Suc Cons.IH[of k] by auto
    qed
  qed
qed

lemma hasTimeLine_findIndex:
  "hasTimeLine b \<longleftrightarrow> findIndex (\<lambda>l. includes_js l (js ''-->'')) (split_js 10 b) \<noteq> None"
  by (simp add: hasTimeLine_def findIndex_None_iff)

lemma convertBlock_unfold:
  "convertBlock b =
     (case findIndex (\<lambda>l. includes_js l (js ''-->'')) (split_js 10 b) of
        None \<Rightarrow> []
      | Some t \<Rightarrow> join_js [10] ((split_js 10 b)[t := replaceDots (split_js 10 b ! t)]))"
  by (simp add: convertBlock_def Let_def)

lemma convertBlock_no_time: "\<not> hasTimeLine b \<Longrightarrow> convertBlock b = []"
  by (simp add: hasTimeLine_findIndex convertBlock_unfold)

lemma lines_update_free:
  assumes "i < length (split_js 10 b)"
  shows "\<forall>l \<in> set ((split_js 10 b)[i := replaceDots (split_js 10 b ! i)]). 10 \<notin> set l"
proof
  fix l assume "l \<in> set ((split_js 10 b)[i := replaceDots (split_js 10 b ! i)])"
  then have "l = replaceDots (split_js 10 b ! i) \<or> l \<in> set (split_js 10 b)"
    by (meson insertE set_update_subset_insert subsetD)
  moreover have "10 \<notin> set (split_js 10 b ! i)" using assms split_js_lines_free nth_mem by blast
  ultimately show "10 \<notin> set l"
    using split_js_lines_free by (auto simp: replaceDots_keeps_nl)
qed

lemma convertBlock_time:
  assumes "hasTimeLine b"
  obtains i where "i < length (split_js 10 b)"
    and "includes_js (split_js 10 b ! i) (js ''-->'')"
    and "\<forall>j < i. \<not> includes_js (split_js 10 b ! j) (js ''-->'')"
    and "convertBlock b = join_js [10] ((split_js 10 b)[i := replaceDots (split_js 10 b ! i)])"
    and "split_js 10 (convertBlock b) = (split_js 10 b)[i := replaceDots (split_js 10 b ! i)]"
proof -
  from assms obtain i where f: "findIndex (\<lambda>l. includes_js l (js ''-->'')) (split_js 10 b) = Some i"
    by (auto simp: hasTimeLine_findIndex)
  then have c: "convertBlock b = join_js [10] ((split_js 10 b)[i := replaceDots (split_js 10 b ! i)])"
    by (simp add: convertBlock_unfold)
  from f have i: "i < length (split_js 10 b)" "includes_js (split_js 10 b ! i) (js ''-->'')"
    "\<forall>j < i. \<not> includes_js (split_js 10 b ! j) (js ''-->'')"
    by (simp_all add: findIndex_Some_iff)
  have "split_js 10 (convertBlock b) = (split_js 10 b)[i := replaceDots (split_js 10 b ! i)]"
    unfolding c using lines_update_free[OF i(1)] by (intro split_join_js) simp_all
  with c i that show ?thesis by blast
qed

lemma set_join_js: "l \<in> set ls \<Longrightarrow> set l \<subseteq> set (join_js sep ls)"
  by (induction sep ls rule: join_js.induct) auto

lemma hasTimeLine_not_blank:
  assumes "hasTimeLine b" shows "trim b \<noteq> []"
proof -
  from assms obtain l where l: "l \<in> set (split_js 10 b)" "includes_js l (js ''-->'')"
    by (auto simp: hasTimeLine_def)
  then obtain c where c: "c \<in> set l" "\<not> isWhiteSpace c"
    using includes_arrow_not_blank by blast
  have "set l \<subseteq> set (join_js [10] (split_js 10 b))" using l(1) by (rule set_join_js)
  then have "c \<in> set b" using c(1) by (auto simp: join_split_js)
  then show ?thesis using c(2) by (auto simp: trim_Nil_iff)
qed

lemma hasTimeLine_convertBlock: "hasTimeLine (convertBlock b) \<longleftrightarrow> hasTimeLine b"
proof
  assume h: "hasTimeLine b"
  then obtain i where i: "i < length (split_js 10 b)"
    "includes_js (split_js 10 b ! i) (js ''-->'')"
    "split_js 10 (convertBlock b) = (split_js 10 b)[i := replaceDots (split_js 10 b ! i)]"
    by (rule convertBlock_time)
  have "replaceDots (split_js 10 b ! i) \<in> set (split_js 10 (convertBlock b))"
    unfolding i(3) using i(1) by (simp add: set_update_memI)
  moreover have "includes_js (replaceDots (split_js 10 b ! i)) (js ''-->'')"
    using i(2) by (simp add: includes_arrow_replaceDots)
  ultimately show "hasTimeLine (convertBlock b)" by (auto simp: hasTimeLine_def)
next
  assume h: "hasTimeLine (convertBlock b)"
  show "hasTimeLine b"
  proof (rule ccontr)
    assume "\<not> hasTimeLine b"
    then have "convertBlock b = []" by (rule convertBlock_no_time)
    then show False using h by (simp add: hasTimeLine_def arrow_js)
  qed
qed

lemma convertBlock_not_blank: "trim (convertBlock b) \<noteq> [] \<longleftrightarrow> hasTimeLine b"
proof
  assume n: "trim (convertBlock b) \<noteq> []"
  show "hasTimeLine b"
  proof (rule ccontr)
    assume "\<not> hasTimeLine b"
    then have "convertBlock b = []" by (rule convertBlock_no_time)
    then show False using n by (simp add: trim_def)
  qed
next
  assume "hasTimeLine b"
  then have "hasTimeLine (convertBlock b)" by (simp add: hasTimeLine_convertBlock)
  then show "trim (convertBlock b) \<noteq> []" by (rule hasTimeLine_not_blank)
qed

lemma convertBlock_idem: "convertBlock (convertBlock b) = convertBlock b"
proof (cases "hasTimeLine b")
  case False
  then have "convertBlock b = []" by (rule convertBlock_no_time)
  then show ?thesis by (simp add: convertBlock_unfold arrow_js)
next
  case True
  let ?P = "\<lambda>l. includes_js l (js ''-->'')"
  let ?ls = "split_js 10 b"
  from True obtain i where i: "i < length ?ls" "?P (?ls ! i)" "\<forall>j < i. \<not> ?P (?ls ! j)"
    "split_js 10 (convertBlock b) = ?ls[i := replaceDots (?ls ! i)]"
    and c: "convertBlock b = join_js [10] (?ls[i := replaceDots (?ls ! i)])"
    by (rule convertBlock_time)
  let ?ls' = "?ls[i := replaceDots (?ls ! i)]"
  have "findIndex ?P ?ls' = Some i"
    using i by (simp add: findIndex_Some_iff includes_arrow_replaceDots)
  then have "convertBlock (convertBlock b) = join_js [10] (?ls'[i := replaceDots (?ls' ! i)])"
    by (subst convertBlock_unfold) (simp add: i(4))
  also have "\<dots> = join_js [10] ?ls'" using i(1) by (simp add: replaceDots_idem)
  finally show ?thesis using c by simp
qed

subsection \<open>Blocks\<close>

lemma splitBlocks_not_Nil [simp]: "splitBlocks s \<noteq> []"
  by (induction s rule: splitBlocks.induct) (auto split: list.splits)

lemma splitBlocks_Cons:
  "splitBlocks (c # s) =
     (if c = 10 \<and> s \<noteq> [] \<and> hd s = 10
      then [] # splitBlocks (dropWhile (\<lambda>x. x = 10) s)
      else (c # hd (splitBlocks s)) # tl (splitBlocks s))"
  by (cases "splitBlocks s") auto

lemma splitBlocks_single: "nnFree b \<Longrightarrow> splitBlocks b = [b]"
proof (induction b rule: nnFree.induct[case_names step empty single])
  case (step a b s)
  then show ?case by (simp add: splitBlocks_Cons del: splitBlocks.simps)
next
  case empty
  then show ?case by simp
next
  case (single v)
  then show ?case by simp
qed

lemma splitBlocks_append:
  assumes "nnFree b" and "b = [] \<or> last b \<noteq> 10" and "r = [] \<or> hd r \<noteq> 10"
  shows "splitBlocks (b @ [10, 10] @ r) = b # splitBlocks r"
  using assms
proof (induction b)
  case Nil
  have "dropWhile (\<lambda>x. x = 10) r = r" using Nil(3) by (cases r) auto
  then show ?case by simp
next
  case (Cons c b)
  have nb: "nnFree b" using Cons.prems(1) by (cases b) auto
  have lb: "b = [] \<or> last b \<noteq> 10" using Cons.prems(2) by auto
  have ih: "splitBlocks (b @ [10, 10] @ r) = b # splitBlocks r"
    using Cons.IH[OF nb lb Cons.prems(3)] .
  have "\<not> (c = 10 \<and> hd (b @ [10, 10] @ r) = 10)"
  proof (cases b)
    case Nil
    then show ?thesis using Cons.prems(2) by simp
  next
    case (Cons b0 b')
    then show ?thesis using Cons.prems(1) by simp
  qed
  then show ?case using ih by (simp add: splitBlocks_Cons del: splitBlocks.simps)
qed

lemma join_blocks_Cons:
  "bs \<noteq> [] \<Longrightarrow> join_js sep (b # bs) = b @ sep @ join_js sep bs"
  by (cases bs) auto

lemma hd_join_js: "bs \<noteq> [] \<Longrightarrow> hd bs \<noteq> [] \<Longrightarrow> hd (join_js sep bs) = hd (hd bs)"
  by (induction sep bs rule: join_js.induct) auto

lemma join_js_Nil_iff: "bs \<noteq> [] \<Longrightarrow> hd bs \<noteq> [] \<Longrightarrow> join_js sep bs \<noteq> []"
  by (induction sep bs rule: join_js.induct) auto

lemma splitBlocks_join:
  assumes "bs \<noteq> []"
    and "\<forall>b \<in> set bs. b \<noteq> [] \<and> nnFree b"
    and "\<forall>b \<in> set (butlast bs). last b \<noteq> 10"
    and "\<forall>b \<in> set (tl bs). hd b \<noteq> 10"
  shows "splitBlocks (join_js [10, 10] bs) = bs"
  using assms
proof (induction bs)
  case Nil
  then show ?case by simp
next
  case (Cons b bs)
  show ?case
  proof (cases bs)
    case Nil
    then show ?thesis using Cons.prems by (simp add: splitBlocks_single)
  next
    case (Cons b2 bs2)
    have p3: "\<forall>x \<in> set (butlast bs). last x \<noteq> 10"
      using Cons.prems(3) Cons by simp
    have p4: "\<forall>x \<in> set (tl bs). hd x \<noteq> 10"
      using Cons.prems(4) Cons by simp
    have ih: "splitBlocks (join_js [10, 10] bs) = bs"
      using Cons.prems(2) Cons p3 p4 by (intro Cons.IH) simp_all
    have h: "hd (join_js [10, 10] bs) \<noteq> 10"
      using Cons Cons.prems(2,4) by (simp add: hd_join_js)
    have "splitBlocks (b @ [10, 10] @ join_js [10, 10] bs) = b # splitBlocks (join_js [10, 10] bs)"
      using Cons.prems(2,3) Cons h by (intro splitBlocks_append) auto
    then show ?thesis using ih Cons by simp
  qed
qed

lemma nnFree_Cons: "nnFree (c # b) = ((b = [] \<or> \<not> (c = 10 \<and> hd b = 10)) \<and> nnFree b)"
  by (cases b) auto

lemma hd_splitBlocks:
  "hd (splitBlocks s) \<noteq> [] \<Longrightarrow> s \<noteq> [] \<and> hd (hd (splitBlocks s)) = hd s"
  by (cases s) (auto simp: splitBlocks_Cons simp del: splitBlocks.simps(2) split: if_splits)

lemma hd_splitBlocks_Nil:
  "hd (splitBlocks s) = [] \<Longrightarrow> tl (splitBlocks s) \<noteq> [] \<Longrightarrow> s \<noteq> [] \<and> hd s = 10"
  by (cases s) (auto simp: splitBlocks_Cons simp del: splitBlocks.simps(2) split: if_splits)

lemma blocks_nnFree: "b \<in> set (splitBlocks s) \<Longrightarrow> nnFree b"
proof (induction s arbitrary: b rule: splitBlocks.induct)
  case 1
  then show ?case by simp
next
  case (2 c s)
  show ?case
  proof (cases "c = 10 \<and> s \<noteq> [] \<and> hd s = 10")
    case True
    then show ?thesis using 2 by (auto simp: splitBlocks_Cons simp del: splitBlocks.simps(2))
  next
    case False
    have ih: "\<And>x. x \<in> set (splitBlocks s) \<Longrightarrow> nnFree x" using 2(2) False by blast
    have h: "nnFree (hd (splitBlocks s))" by (intro ih) simp
    have t: "\<And>x. x \<in> set (tl (splitBlocks s)) \<Longrightarrow> nnFree x"
      by (intro ih) (meson list.set_sel(2) splitBlocks_not_Nil)
    have "nnFree (c # hd (splitBlocks s))"
      using h False hd_splitBlocks[of s] by (auto simp: nnFree_Cons)
    then show ?thesis using 2(3) False t
      by (auto simp: splitBlocks_Cons simp del: splitBlocks.simps(2))
  qed
qed

lemma blocks_last: "b \<in> set (butlast (splitBlocks s)) \<Longrightarrow> b = [] \<or> last b \<noteq> 10"
proof (induction s arbitrary: b rule: splitBlocks.induct)
  case 1
  then show ?case by simp
next
  case (2 c s)
  show ?case
  proof (cases "c = 10 \<and> s \<noteq> [] \<and> hd s = 10")
    case True
    then show ?thesis using 2 by (auto simp: splitBlocks_Cons simp del: splitBlocks.simps(2))
  next
    case False
    have ih: "\<And>x. x \<in> set (butlast (splitBlocks s)) \<Longrightarrow> x = [] \<or> last x \<noteq> 10"
      using 2(2) False by blast
    show ?thesis
    proof (cases "tl (splitBlocks s) = []")
      case True
      then show ?thesis using 2(3) False
        by (auto simp: splitBlocks_Cons simp del: splitBlocks.simps(2))
    next
      case nt: False
      obtain x xs where sp: "splitBlocks s = x # xs" "xs \<noteq> []"
        using nt by (cases "splitBlocks s") auto
      have bl: "butlast (splitBlocks s) = x # butlast xs" using sp by simp
      have "last (c # x) \<noteq> 10"
      proof (cases "x = []")
        case True
        then have "s \<noteq> [] \<and> hd s = 10" using hd_splitBlocks_Nil[of s] sp by simp
        then show ?thesis using False True by auto
      next
        case False
        then show ?thesis using ih[of x] bl by simp
      qed
      moreover have "\<And>y. y \<in> set (butlast xs) \<Longrightarrow> y = [] \<or> last y \<noteq> 10"
        using ih bl by simp
      ultimately show ?thesis using 2(3) False sp
        by (auto simp: splitBlocks_Cons simp del: splitBlocks.simps(2))
    qed
  qed
qed

lemma blocks_hd: "b \<in> set (tl (splitBlocks s)) \<Longrightarrow> b = [] \<or> hd b \<noteq> 10"
proof (induction s arbitrary: b rule: splitBlocks.induct)
  case 1
  then show ?case by simp
next
  case (2 c s)
  show ?case
  proof (cases "c = 10 \<and> s \<noteq> [] \<and> hd s = 10")
    case True
    let ?r = "dropWhile (\<lambda>x. x = 10) s"
    have ih: "\<And>x. x \<in> set (tl (splitBlocks ?r)) \<Longrightarrow> x = [] \<or> hd x \<noteq> 10"
      using 2(1) True by blast
    have b: "b \<in> set (splitBlocks ?r)"
      using 2(3) True by (simp add: splitBlocks_Cons del: splitBlocks.simps(2))
    obtain x xs where sp: "splitBlocks ?r = x # xs" by (cases "splitBlocks ?r") auto
    have "x = [] \<or> hd x \<noteq> 10"
    proof (cases "x = []")
      case True
      then show ?thesis by simp
    next
      case False
      then have "?r \<noteq> [] \<and> hd x = hd ?r" using hd_splitBlocks[of ?r] sp by simp
      moreover have "?r \<noteq> [] \<Longrightarrow> hd ?r \<noteq> 10" using hd_dropWhile[of "\<lambda>x. x = 10" s] by simp
      ultimately show ?thesis by simp
    qed
    then show ?thesis using b sp ih by auto
  next
    case False
    have ih: "\<And>x. x \<in> set (tl (splitBlocks s)) \<Longrightarrow> x = [] \<or> hd x \<noteq> 10"
      using 2(2) False by blast
    then show ?thesis using 2(3) False
      by (auto simp: splitBlocks_Cons simp del: splitBlocks.simps(2))
  qed
qed

lemma sameNL_refl: "sameNL b b"
  by (simp add: sameNL_def list_all2_refl)

lemma sameNL_Nil: "sameNL c b \<Longrightarrow> (c = []) = (b = [])"
  by (auto simp: sameNL_def)

lemma sameNL_hd: "sameNL c b \<Longrightarrow> b \<noteq> [] \<Longrightarrow> (hd c = 10) = (hd b = 10)"
  by (cases c; cases b) (auto simp: sameNL_def)

lemma sameNL_last: "sameNL c b \<Longrightarrow> b \<noteq> [] \<Longrightarrow> (last c = 10) = (last b = 10)"
proof -
  assume a: "sameNL c b" and n: "b \<noteq> []"
  then have l: "length c = length b" by (simp add: sameNL_def list_all2_lengthD)
  then have cn: "c \<noteq> []" using n by auto
  have "(c ! (length b - 1) = 10) = (b ! (length b - 1) = 10)"
    using a n by (intro list_all2_nthD[of "\<lambda>x y. (x = 10) = (y = 10)" c b, folded sameNL_def, unfolded l]) (simp_all add: l)
  then show ?thesis using n cn l by (simp add: last_conv_nth)
qed

lemma sameNL_nnFree: "sameNL c b \<Longrightarrow> nnFree c = nnFree b"
proof (induction b arbitrary: c rule: nnFree.induct[case_names step empty single])
  case (step x y s)
  then obtain x' y' s' where c: "c = x' # y' # s'"
    by (auto simp: sameNL_def list_all2_Cons2)
  then have "sameNL (y' # s') (y # s)" and "(x' = 10) = (x = 10)" and "(y' = 10) = (y = 10)"
    using step(2) by (auto simp: sameNL_def)
  then show ?case using step(1)[of "y' # s'"] c by simp
next
  case empty
  then show ?case by (simp add: sameNL_def)
next
  case (single v)
  then show ?case by (auto simp: sameNL_def list_all2_Cons2)
qed

lemma sameNL_append: "sameNL a a' \<Longrightarrow> sameNL b b' \<Longrightarrow> sameNL (a @ b) (a' @ b')"
  by (simp add: sameNL_def list_all2_appendI)

lemma sameNL_replaceDots: "sameNL (replaceDots l) l"
  by (simp add: sameNL_def replaceDots_def list_all2_map1 list_all2_refl)

lemma sameNL_join:
  "list_all2 sameNL ls ls' \<Longrightarrow> sameNL (join_js [10] ls) (join_js [10] ls')"
proof (induction ls arbitrary: ls')
  case Nil
  then show ?case by (simp add: sameNL_def)
next
  case (Cons l ls)
  then obtain l' ls2 where l': "ls' = l' # ls2" "sameNL l l'" "list_all2 sameNL ls ls2"
    by (auto simp: list_all2_Cons1)
  show ?case
  proof (cases ls)
    case Nil
    then show ?thesis using l' by simp
  next
    case (Cons m ms)
    then obtain m' ms' where m': "ls2 = m' # ms'" using l'(3) by (auto simp: list_all2_Cons1)
    have "sameNL (join_js [10] ls) (join_js [10] ls2)" using Cons.IH l'(3) by simp
    then have "sameNL (l @ [10] @ join_js [10] ls) (l' @ [10] @ join_js [10] ls2)"
      using l'(2) by (intro sameNL_append) (simp_all add: sameNL_refl)
    then show ?thesis using Cons m' l'(1) by simp
  qed
qed

lemma sameNL_convertBlock: "hasTimeLine b \<Longrightarrow> sameNL (convertBlock b) b"
proof -
  assume "hasTimeLine b"
  then obtain i where i: "i < length (split_js 10 b)"
    and c: "convertBlock b = join_js [10] ((split_js 10 b)[i := replaceDots (split_js 10 b ! i)])"
    by (rule convertBlock_time)
  have "list_all2 sameNL ((split_js 10 b)[i := replaceDots (split_js 10 b ! i)]) (split_js 10 b)"
    using i by (simp add: list_all2_conv_all_nth nth_list_update sameNL_refl sameNL_replaceDots)
  then have "sameNL (convertBlock b) (join_js [10] (split_js 10 b))"
    unfolding c by (rule sameNL_join)
  then show ?thesis by (simp add: join_split_js)
qed

lemma butlast_filter_subset: "set (butlast (filter P xs)) \<subseteq> set (butlast xs)"
proof (induction xs)
  case Nil
  then show ?case by simp
next
  case (Cons x xs)
  show ?case
  proof (cases "xs = []")
    case True
    then show ?thesis by simp
  next
    case False
    then have b: "butlast (x # xs) = x # butlast xs" by simp
    show ?thesis
    proof (cases "P x")
      case True
      then have "set (butlast (filter P (x # xs))) \<subseteq> insert x (set (butlast (filter P xs)))"
        by (cases "filter P xs = []") auto
      then show ?thesis using Cons.IH b by auto
    next
      case False
      then show ?thesis using Cons.IH b by auto
    qed
  qed
qed

lemma in_set_tl: "x \<in> set (tl xs) \<Longrightarrow> x \<in> set xs"
  by (cases xs) auto

lemma tl_filter_subset: "set (tl (filter P xs)) \<subseteq> set (tl xs)"
proof (induction xs)
  case Nil
  then show ?case by simp
next
  case (Cons x xs)
  have "set (tl (filter P xs)) \<subseteq> set (filter P xs)"
  proof
    fix y assume "y \<in> set (tl (filter P xs))"
    then show "y \<in> set (filter P xs)" by (rule in_set_tl)
  qed
  then have "set (tl (filter P xs)) \<subseteq> set xs" by auto
  then show ?case by simp
qed

lemma hasTimeLine_not_Nil: "hasTimeLine b \<Longrightarrow> b \<noteq> []"
proof
  assume "hasTimeLine b" and "b = []"
  then have "hasTimeLine []" by simp
  then show False by (simp add: hasTimeLine_def arrow_js)
qed

lemma converted_blocks:
  fixes t :: jsstring
  defines "cs \<equiv> map convertBlock (filter hasTimeLine (splitBlocks t))"
  shows "\<forall>c \<in> set cs. c \<noteq> [] \<and> nnFree c \<and> hasTimeLine c \<and> convertBlock c = c"
    and "\<forall>c \<in> set (butlast cs). last c \<noteq> 10"
    and "\<forall>c \<in> set (tl cs). hd c \<noteq> 10"
proof -
  show "\<forall>c \<in> set cs. c \<noteq> [] \<and> nnFree c \<and> hasTimeLine c \<and> convertBlock c = c"
  proof
    fix c assume "c \<in> set cs"
    then obtain b where b: "b \<in> set (splitBlocks t)" "hasTimeLine b" "c = convertBlock b"
      by (auto simp: cs_def)
    have s: "sameNL c b" using b by (simp add: sameNL_convertBlock)
    have "b \<noteq> []" using b(2) by (rule hasTimeLine_not_Nil)
    then have "c \<noteq> []" using sameNL_Nil[OF s] by simp
    moreover have "nnFree b" using b(1) by (rule blocks_nnFree)
    then have "nnFree c" using sameNL_nnFree[OF s] by simp
    moreover have "hasTimeLine c" using b by (simp add: hasTimeLine_convertBlock)
    moreover have "convertBlock c = c" using b(3) by (simp add: convertBlock_idem)
    ultimately show "c \<noteq> [] \<and> nnFree c \<and> hasTimeLine c \<and> convertBlock c = c" by simp
  qed
  show "\<forall>c \<in> set (butlast cs). last c \<noteq> 10"
  proof
    fix c assume "c \<in> set (butlast cs)"
    moreover have "butlast cs = map convertBlock (butlast (filter hasTimeLine (splitBlocks t)))"
      unfolding cs_def by (rule map_butlast[symmetric])
    ultimately have "c \<in> convertBlock ` set (butlast (filter hasTimeLine (splitBlocks t)))"
      by simp
    then obtain b where b: "b \<in> set (butlast (filter hasTimeLine (splitBlocks t)))"
      "c = convertBlock b"
      by blast
    have "b \<in> set (filter hasTimeLine (splitBlocks t))"
      using b(1) by (rule in_set_butlastD)
    then have h: "hasTimeLine b" by simp
    have "b \<in> set (butlast (splitBlocks t))" using butlast_filter_subset b(1) by (rule subsetD)
    then have "b = [] \<or> last b \<noteq> 10" by (rule blocks_last)
    moreover have n: "b \<noteq> []" using h by (rule hasTimeLine_not_Nil)
    moreover have "sameNL c b" using h b(2) by (simp add: sameNL_convertBlock)
    ultimately show "last c \<noteq> 10" using sameNL_last[of c b] by simp
  qed
  show "\<forall>c \<in> set (tl cs). hd c \<noteq> 10"
  proof
    fix c assume "c \<in> set (tl cs)"
    moreover have "tl cs = map convertBlock (tl (filter hasTimeLine (splitBlocks t)))"
      unfolding cs_def by (rule map_tl[symmetric])
    ultimately have "c \<in> convertBlock ` set (tl (filter hasTimeLine (splitBlocks t)))"
      by simp
    then obtain b where b: "b \<in> set (tl (filter hasTimeLine (splitBlocks t)))"
      "c = convertBlock b"
      by blast
    have "b \<in> set (filter hasTimeLine (splitBlocks t))"
      using b(1) by (rule in_set_tl)
    then have h: "hasTimeLine b" by simp
    have "b \<in> set (tl (splitBlocks t))" using tl_filter_subset b(1) by (rule subsetD)
    then have "b = [] \<or> hd b \<noteq> 10" by (rule blocks_hd)
    moreover have n: "b \<noteq> []" using h by (rule hasTimeLine_not_Nil)
    moreover have "sameNL c b" using h b(2) by (simp add: sameNL_convertBlock)
    ultimately show "hd c \<noteq> 10" using sameNL_hd[of c b] by simp
  qed
qed

lemma resplit_converted:
  assumes "filter hasTimeLine (splitBlocks t) \<noteq> []"
  shows "splitBlocks (join_js [10, 10] (map convertBlock (filter hasTimeLine (splitBlocks t))))
         = map convertBlock (filter hasTimeLine (splitBlocks t))"
proof (rule splitBlocks_join)
  let ?cs = "map convertBlock (filter hasTimeLine (splitBlocks t))"
  show "?cs \<noteq> []" using assms by simp
  show "\<forall>b \<in> set ?cs. b \<noteq> [] \<and> nnFree b"
    using converted_blocks(1)[of t] by blast
  show "\<forall>b \<in> set (butlast ?cs). last b \<noteq> 10"
    by (rule converted_blocks(2))
  show "\<forall>b \<in> set (tl ?cs). hd b \<noteq> 10"
    by (rule converted_blocks(3))
qed

lemma vttToSrt_blocks:
  "vttToSrt vtt =
     (if vtt = [] then []
      else join_js [10, 10] (map convertBlock (filter hasTimeLine (splitBlocks (stripHeader vtt)))))"
proof -
  have "filter (\<lambda>b. trim b \<noteq> []) (map convertBlock bs) = map convertBlock (filter hasTimeLine bs)"
    for bs
    by (induction bs) (auto simp: convertBlock_not_blank)
  then show ?thesis by (simp add: vttToSrt_def)
qed

lemma vttToSrt_Nil_iff:
  "vttToSrt vtt = [] \<longleftrightarrow> vtt = [] \<or> filter hasTimeLine (splitBlocks (stripHeader vtt)) = []"
proof (cases "vtt = [] \<or> filter hasTimeLine (splitBlocks (stripHeader vtt)) = []")
  case True
  then show ?thesis by (auto simp: vttToSrt_blocks)
next
  case False
  let ?cs = "map convertBlock (filter hasTimeLine (splitBlocks (stripHeader vtt)))"
  have "?cs \<noteq> []" using False by simp
  moreover have "hd ?cs \<in> set ?cs" using \<open>?cs \<noteq> []\<close> by (rule list.set_sel(1))
  then have "hd ?cs \<noteq> []"
    using converted_blocks(1)[of "stripHeader vtt"] by blast
  ultimately have "join_js [10, 10] ?cs \<noteq> []" by (rule join_js_Nil_iff)
  then show ?thesis using False by (simp add: vttToSrt_blocks)
qed

text \<open>
  The blocks here are those the code itself splits off, at runs of two or more line
  feeds. Such a block in which no line contains \<open>-->\<close> is mapped to the empty string
  and filtered out: the output is the blocks that have a time line, converted and joined
  by a blank line, and split again a non-empty output gives exactly these blocks, each
  with a time line.
\<close>

lemma split_blocks_without_time_line_dropped:
  "vttToSrt vtt =
     (if vtt = [] then []
      else join_js [10, 10] (map convertBlock (filter hasTimeLine (splitBlocks (stripHeader vtt)))))
   \<and> (\<forall>b \<in> set (splitBlocks (stripHeader vtt)). \<not> hasTimeLine b \<longrightarrow> convertBlock b = [])
   \<and> (vttToSrt vtt \<noteq> [] \<longrightarrow>
        splitBlocks (vttToSrt vtt)
          = map convertBlock (filter hasTimeLine (splitBlocks (stripHeader vtt)))
        \<and> (\<forall>b \<in> set (splitBlocks (vttToSrt vtt)). hasTimeLine b))"
proof (intro conjI impI ballI)
  show "vttToSrt vtt =
     (if vtt = [] then []
      else join_js [10, 10] (map convertBlock (filter hasTimeLine (splitBlocks (stripHeader vtt)))))"
    by (rule vttToSrt_blocks)
next
  fix b assume "\<not> hasTimeLine b"
  then show "convertBlock b = []" by (rule convertBlock_no_time)
next
  assume n: "vttToSrt vtt \<noteq> []"
  then have v: "vtt \<noteq> []" and f: "filter hasTimeLine (splitBlocks (stripHeader vtt)) \<noteq> []"
    by (simp_all add: vttToSrt_Nil_iff)
  have o: "vttToSrt vtt
      = join_js [10, 10] (map convertBlock (filter hasTimeLine (splitBlocks (stripHeader vtt))))"
    using v by (simp add: vttToSrt_blocks)
  show sp: "splitBlocks (vttToSrt vtt)
          = map convertBlock (filter hasTimeLine (splitBlocks (stripHeader vtt)))"
    unfolding o using f by (rule resplit_converted)
  fix b assume "b \<in> set (splitBlocks (vttToSrt vtt))"
  then have "b \<in> set (map convertBlock (filter hasTimeLine (splitBlocks (stripHeader vtt))))"
    by (simp only: sp)
  with converted_blocks(1)[of "stripHeader vtt"] show "hasTimeLine b" by blast
qed

lemma split_blocks_without_time_line_dropped_example:
  "js ''note'' \<in> set (splitBlocks (stripHeader (js ''note\<newline>\<newline>0.1 --> 0.2'')))
   \<and> \<not> hasTimeLine (js ''note'')
   \<and> convertBlock (js ''note'') = []
   \<and> vttToSrt (js ''note\<newline>\<newline>0.1 --> 0.2'') = js ''0,1 --> 0,2''
   \<and> splitBlocks (vttToSrt (js ''note\<newline>\<newline>0.1 --> 0.2'')) = [js ''0,1 --> 0,2'']"
proof -
  have a: "js ''note'' \<in> set (splitBlocks (stripHeader (js ''note\<newline>\<newline>0.1 --> 0.2'')))"
    by (simp add: js_def stripHeader_def)
  have b: "\<not> hasTimeLine (js ''note'')"
    by (simp add: js_def hasTimeLine_def)
  have c: "convertBlock (js ''note'') = []"
    using split_blocks_without_time_line_dropped[of "js ''note\<newline>\<newline>0.1 --> 0.2''", THEN conjunct2, THEN conjunct1] a b
    by blast
  have v: "vttToSrt (js ''note\<newline>\<newline>0.1 --> 0.2'') = js ''0,1 --> 0,2''"
    by (simp add: js_def vttToSrt_def stripHeader_def convertBlock_def replaceDots_def trim_def
      isWhiteSpace_def)
  have s: "splitBlocks (js ''0,1 --> 0,2'') = [js ''0,1 --> 0,2'']"
    by (simp add: js_def)
  show ?thesis using a b c by (simp only: v s simp_thms)
qed

text \<open>
  C10, as amended. The output of the converter is a fixed point of the converter provided
  the header expression does not match the output again; it does not when the output does
  not begin with \<open>WEBVTT\<close>.
\<close>

theorem vttToSrt_idempotent_unless_header:
  "(stripHeader (vttToSrt s) = vttToSrt s \<longrightarrow> vttToSrt (vttToSrt s) = vttToSrt s)
   \<and> (\<not> prefix (js ''WEBVTT'') (vttToSrt s) \<longrightarrow> stripHeader (vttToSrt s) = vttToSrt s)"
proof -
  have "vttToSrt (vttToSrt s) = vttToSrt s" if h: "stripHeader (vttToSrt s) = vttToSrt s"
  proof (cases "vttToSrt s = []")
    case True
    then show ?thesis by (simp add: vttToSrt_def)
  next
    case False
    let ?cs = "map convertBlock (filter hasTimeLine (splitBlocks (stripHeader s)))"
    from False have v: "s \<noteq> []" and f: "filter hasTimeLine (splitBlocks (stripHeader s)) \<noteq> []"
      by (simp_all add: vttToSrt_Nil_iff)
    have o: "vttToSrt s = join_js [10, 10] ?cs" using v by (simp add: vttToSrt_blocks)
    have sp: "splitBlocks (vttToSrt s) = ?cs" unfolding o using f by (rule resplit_converted)
    have a: "\<forall>c \<in> set ?cs. hasTimeLine c \<and> convertBlock c = c"
      using converted_blocks(1)[of "stripHeader s"] by simp
    have F: "filter hasTimeLine ?cs = ?cs"
    proof (rule filter_True)
      show "\<forall>x \<in> set ?cs. hasTimeLine x" using a by blast
    qed
    have M: "map convertBlock ?cs = ?cs"
    proof (rule map_idI)
      fix x assume "x \<in> set ?cs"
      then show "convertBlock x = x" using a by blast
    qed
    have "vttToSrt (vttToSrt s)
          = join_js [10, 10] (map convertBlock (filter hasTimeLine
              (splitBlocks (stripHeader (vttToSrt s)))))"
      using False by (simp only: vttToSrt_blocks[of "vttToSrt s"] if_False)
    also have "\<dots> = join_js [10, 10] (map convertBlock (filter hasTimeLine ?cs))"
      by (simp only: h sp)
    also have "\<dots> = join_js [10, 10] ?cs"
      by (simp only: F M)
    finally have "vttToSrt (vttToSrt s) = join_js [10, 10] ?cs" .
    then show ?thesis using o by simp
  qed
  moreover have "stripHeader x = x" if "\<not> prefix (js ''WEBVTT'') x" for x
    using that by (simp add: stripHeader_def)
  ultimately show ?thesis by blast
qed

theorem vttToSrt_idempotent_unless_header_witness:
  "stripHeader (vttToSrt (js ''WEBVTT\<newline>\<newline>0.1 --> 0.2\<newline>Hi'')) = vttToSrt (js ''WEBVTT\<newline>\<newline>0.1 --> 0.2\<newline>Hi'')
   \<and> vttToSrt (js ''WEBVTT\<newline>\<newline>0.1 --> 0.2\<newline>Hi'') = js ''0,1 --> 0,2\<newline>Hi''
   \<and> vttToSrt (vttToSrt (js ''WEBVTT\<newline>\<newline>0.1 --> 0.2\<newline>Hi'')) = js ''0,1 --> 0,2\<newline>Hi''"
proof -
  have v: "vttToSrt (js ''WEBVTT\<newline>\<newline>0.1 --> 0.2\<newline>Hi'') = js ''0,1 --> 0,2\<newline>Hi''"
    by (simp add: js_def vttToSrt_def stripHeader_def convertBlock_def replaceDots_def trim_def
      isWhiteSpace_def matchNewlines_def)
  have h: "stripHeader (vttToSrt (js ''WEBVTT\<newline>\<newline>0.1 --> 0.2\<newline>Hi'')) = vttToSrt (js ''WEBVTT\<newline>\<newline>0.1 --> 0.2\<newline>Hi'')"
    unfolding v by (simp add: js_def stripHeader_def)
  from vttToSrt_idempotent_unless_header[of "js ''WEBVTT\<newline>\<newline>0.1 --> 0.2\<newline>Hi''"] h
  have "vttToSrt (vttToSrt (js ''WEBVTT\<newline>\<newline>0.1 --> 0.2\<newline>Hi'')) = vttToSrt (js ''WEBVTT\<newline>\<newline>0.1 --> 0.2\<newline>Hi'')"
    by (rule conjunct1[THEN mp])
  then show ?thesis using h v by simp
qed

text \<open>
  The claim as stated fails when the first cue carries the identifier line \<open>WEBVTT\<close>:
  the first pass keeps that line, the second takes it for the header and strips it.
\<close>

theorem vttToSrt_twice_counterexample:
  "vttToSrt (js ''WEBVTT\<newline>\<newline>WEBVTT\<newline>0.1 --> 0.2\<newline>Hi'') = js ''WEBVTT\<newline>0,1 --> 0,2\<newline>Hi''
   \<and> vttToSrt (vttToSrt (js ''WEBVTT\<newline>\<newline>WEBVTT\<newline>0.1 --> 0.2\<newline>Hi'')) = js ''0,1 --> 0,2\<newline>Hi''
   \<and> vttToSrt (vttToSrt (js ''WEBVTT\<newline>\<newline>WEBVTT\<newline>0.1 --> 0.2\<newline>Hi''))
       \<noteq> vttToSrt (js ''WEBVTT\<newline>\<newline>WEBVTT\<newline>0.1 --> 0.2\<newline>Hi'')"
  by (simp add: js_def vttToSrt_def stripHeader_def convertBlock_def replaceDots_def trim_def
      isWhiteSpace_def matchNewlines_def)

subsection \<open>The header expression and runs of line feeds\<close>

lemma skipNewlines_id: "matchNewlines u = None \<Longrightarrow> skipNewlines u = u"
  by (cases u rule: skipNewlines.cases) (auto simp: matchNewlines_def split: if_splits)

lemma matchNewlines_lf: "matchNewlines u = None \<Longrightarrow> matchNewlines (10 # u) = Some u"
  using skipNewlines_id[of u] by (cases u) (auto simp: matchNewlines_def)

lemma matchHeaderTail_hit: "matchNewlines (drop j s) = Some r \<Longrightarrow> matchHeaderTail j s = Some r"
  by (cases j) auto

lemma matchHeaderTail_descend:
  "j0 \<le> k \<Longrightarrow> (\<forall>j. j0 < j \<and> j \<le> k \<longrightarrow> matchNewlines (drop j s) = None)
   \<Longrightarrow> matchHeaderTail k s = matchHeaderTail j0 s"
proof (induction k)
  case 0
  then show ?case by simp
next
  case (Suc k)
  show ?case
  proof (cases "j0 = Suc k")
    case True
    then show ?thesis by simp
  next
    case False
    then have "matchNewlines (drop (Suc k) s) = None" using Suc.prems by auto
    moreover have "matchHeaderTail k s = matchHeaderTail j0 s"
      using Suc False by auto
    ultimately show ?thesis by simp
  qed
qed

lemma no_newline_in_run:
  "10 \<notin> set v \<Longrightarrow> (\<forall>c \<in> set v. isWhiteSpace c) \<Longrightarrow> w = [] \<or> \<not> isWhiteSpace (hd w)
   \<Longrightarrow> i \<le> length v \<Longrightarrow> matchNewlines (drop i (v @ w)) = None"
proof (induction v arbitrary: i)
  case Nil
  then show ?case
    by (cases w) (auto simp: matchNewlines_def isWhiteSpace_def)
next
  case (Cons c v)
  show ?case
  proof (cases i)
    case 0
    have "hd (v @ w) \<noteq> 10 \<or> v @ w = []"
    proof (cases v)
      case Nil
      then show ?thesis using Cons.prems(3) by (cases w) (auto simp: isWhiteSpace_def)
    next
      case (Cons d v')
      then show ?thesis using Cons.prems(1) by auto
    qed
    then show ?thesis using 0 Cons.prems(1)
      by (cases "v @ w") (auto simp: matchNewlines_def)
  next
    case (Suc i')
    then show ?thesis using Cons by simp
  qed
qed

lemma stripHeader_strips:
  assumes a: "\<forall>c \<in> set a. isWhiteSpace c"
    and v: "10 \<notin> set (takeWhile isWhiteSpace u)"
  shows "stripHeader (js ''WEBVTT'' @ a @ 10 # u) = u"
proof -
  let ?rest = "a @ 10 # u"
  let ?v = "takeWhile isWhiteSpace u"
  let ?w = "dropWhile isWhiteSpace u"
  have ws10: "isWhiteSpace 10" by (simp add: isWhiteSpace_def)
  have tw: "takeWhile isWhiteSpace ?rest = a @ 10 # ?v"
    using a ws10 by (simp add: takeWhile_append2)
  have u: "u = ?v @ ?w" by simp
  have w: "?w = [] \<or> \<not> isWhiteSpace (hd ?w)"
    using hd_dropWhile[of isWhiteSpace u] by blast
  have vall: "\<forall>c \<in> set ?v. isWhiteSpace c" by (meson set_takeWhileD)
  have none: "matchNewlines (drop i u) = None" if "i \<le> length ?v" for i
    using no_newline_in_run[OF v vall w that] by simp
  have after: "\<forall>j. length a < j \<and> j \<le> length a + 1 + length ?v \<longrightarrow> matchNewlines (drop j ?rest) = None"
  proof (intro allI impI)
    fix j assume j: "length a < j \<and> j \<le> length a + 1 + length ?v"
    then obtain i where i: "j = length a + 1 + i" "i \<le> length ?v"
      by (metis add.assoc add.commute less_iff_Suc_add nat_add_left_cancel_le plus_1_eq_Suc)
    have "drop j ?rest = drop i u" using i(1) by simp
    then show "matchNewlines (drop j ?rest) = None" using none[OF i(2)] by simp
  qed
  have "matchHeaderTail (length a + 1 + length ?v) ?rest = matchHeaderTail (length a) ?rest"
    using after by (intro matchHeaderTail_descend) simp_all
  also have "\<dots> = Some u"
  proof (rule matchHeaderTail_hit)
    have "matchNewlines u = None" using none[of 0] by simp
    then show "matchNewlines (drop (length a) ?rest) = Some u"
      by (simp add: matchNewlines_lf)
  qed
  finally have m: "matchHeaderTail (length (takeWhile isWhiteSpace ?rest)) ?rest = Some u"
    by (simp add: tw)
  have p: "prefix (js ''WEBVTT'') (js ''WEBVTT'' @ ?rest)" by simp
  have d: "drop 6 (js ''WEBVTT'' @ ?rest) = ?rest" by (simp add: js_def)
  show ?thesis
    unfolding stripHeader_def using p m by (simp only: d if_True Let_def option.case)
qed

lemma splitBlocks_append_run:
  assumes "nnFree b" and "b = [] \<or> last b \<noteq> 10" and "r = [] \<or> hd r \<noteq> 10"
  shows "splitBlocks (b @ replicate (m + 2) 10 @ r) = b # splitBlocks r"
  using assms
proof (induction b)
  case Nil
  have "dropWhile (\<lambda>x. x = 10) (replicate m 10 @ r) = r"
    using Nil(3) by (cases r) (auto simp: dropWhile_append3)
  then show ?case by simp
next
  case (Cons c b)
  have nb: "nnFree b" using Cons.prems(1) by (cases b) auto
  have lb: "b = [] \<or> last b \<noteq> 10" using Cons.prems(2) by auto
  have ih: "splitBlocks (b @ replicate (m + 2) 10 @ r) = b # splitBlocks r"
    using Cons.IH[OF nb lb Cons.prems(3)] .
  have "\<not> (c = 10 \<and> hd (b @ replicate (m + 2) 10 @ r) = 10)"
  proof (cases b)
    case Nil
    then show ?thesis using Cons.prems(2) by simp
  next
    case (Cons b0 b')
    then show ?thesis using Cons.prems(1) by simp
  qed
  then show ?case using ih by (simp add: splitBlocks_Cons del: splitBlocks.simps(2))
qed

lemma nnFree_line:
  "10 \<notin> set l \<Longrightarrow> l \<noteq> [] \<Longrightarrow> nnFree r \<Longrightarrow> r = [] \<or> hd r \<noteq> 10 \<Longrightarrow> nnFree (l @ 10 # r)"
proof (induction l)
  case Nil
  then show ?case by simp
next
  case (Cons c l)
  show ?case
  proof (cases l)
    case Nil
    then show ?thesis using Cons.prems by (cases r) auto
  next
    case (Cons d l')
    then show ?thesis using Cons.IH Cons.prems by (simp add: nnFree_Cons)
  qed
qed

lemma nnFree_no_lf: "10 \<notin> set l \<Longrightarrow> nnFree l"
  by (induction l rule: nnFree.induct) auto

lemma nnFree_join_lines:
  "\<forall>l \<in> set ls. l \<noteq> [] \<and> 10 \<notin> set l \<Longrightarrow> nnFree (join_js [10] ls)"
proof (induction ls)
  case Nil
  then show ?case by simp
next
  case (Cons l ls)
  show ?case
  proof (cases ls)
    case Nil
    then show ?thesis using Cons.prems by (simp add: nnFree_no_lf)
  next
    case (Cons l2 ls2)
    have "hd (join_js [10] ls) = hd l2" using Cons Cons.prems by (simp add: hd_join_js)
    then have "hd (join_js [10] ls) \<noteq> 10" using Cons Cons.prems by (cases l2) auto
    moreover have "nnFree (join_js [10] ls)" using Cons.IH Cons.prems by simp
    ultimately have "nnFree (l @ 10 # join_js [10] ls)"
      using Cons.prems by (intro nnFree_line) simp_all
    then show ?thesis using Cons by simp
  qed
qed

lemma join_js_last_not_Nil: "ls \<noteq> [] \<Longrightarrow> last ls \<noteq> [] \<Longrightarrow> join_js sep ls \<noteq> []"
  by (induction sep ls rule: join_js.induct) auto

lemma last_join_js: "ls \<noteq> [] \<Longrightarrow> last ls \<noteq> [] \<Longrightarrow> last (join_js sep ls) = last (last ls)"
proof (induction sep ls rule: join_js.induct)
  case (1 sep)
  then show ?case by simp
next
  case (2 sep x)
  then show ?case by simp
next
  case (3 sep x y ys)
  have "join_js sep (y # ys) \<noteq> []" using 3(3) by (intro join_js_last_not_Nil) simp_all
  then show ?case using 3 by simp
qed

lemma includes_not_Nil: "includes_js t (js ''-->'') \<Longrightarrow> t \<noteq> []"
  by (auto simp: arrow_js)

section \<open>Properties of the transcription call\<close>

lemma fence_js: "js ''```'' = [96, 96, 96]" "js ''```vtt'' = [96, 96, 96, 118, 116, 116]"
  "js ''vtt'' = [118, 116, 116]"
  by (simp_all add: js_def)

lemma includes_js_sublist: "includes_js s pat = sublist pat s"
  by (induction s) (simp_all add: sublist_Cons_right)

lemma matchesAt_eq: "matchesAt (=) pat s = prefix pat s"
  by (induction "(=) :: nat \<Rightarrow> nat \<Rightarrow> bool" pat s rule: matchesAt.induct) auto

lemma matchesAt_append: "matchesAt eq pat (o' @ z) = True" if "list_all2 eq pat o'"
  using that
  by (induction eq pat "o' @ z" arbitrary: o' rule: matchesAt.induct) (auto simp: list_all2_Cons1)

lemma eqIgnoreCase_tick: "eqIgnoreCase 96 c \<longleftrightarrow> c = 96"
  by (auto simp: eqIgnoreCase_def canonicalize_def)

lemma removeAll_no_tick:
  assumes "\<And>c. eq 96 c \<Longrightarrow> c = 96" and "96 \<notin> set y"
  shows "removeAll_js eq (96 # pat) y = y"
  using assms(2)
proof (induction y)
  case Nil
  then show ?case by simp
next
  case (Cons c y)
  then have "\<not> eq 96 c" using assms(1) by auto
  then show ?case using Cons by simp
qed

lemma removeAll_fence_close:
  "96 \<notin> set y \<Longrightarrow> removeAll_js (=) [96, 96, 96] (y @ [96, 96, 96] @ z) = y @ removeAll_js (=) [96, 96, 96] z"
  by (induction y) auto

lemma removeAll_vtt_close:
  "96 \<notin> set y \<Longrightarrow>
   removeAll_js eqIgnoreCase [96, 96, 96, 118, 116, 116] (y @ [96, 96, 96]) = y @ [96, 96, 96]"
  by (induction y) (auto simp: eqIgnoreCase_tick)

lemma removeAll_vtt_open:
  assumes "list_all2 eqIgnoreCase [96, 96, 96, 118, 116, 116] o'"
  shows "removeAll_js eqIgnoreCase [96, 96, 96, 118, 116, 116] (o' @ z)
         = removeAll_js eqIgnoreCase [96, 96, 96, 118, 116, 116] z"
proof -
  from assms obtain a b c d e f where o: "o' = [a, b, c, d, e, f]"
    by (auto simp: list_all2_Cons1)
  have "matchesAt eqIgnoreCase [96, 96, 96, 118, 116, 116] (o' @ z)"
    using matchesAt_append[OF assms] by simp
  then show ?thesis unfolding o by simp
qed

lemma tick_prefix_removeAll:
  "prefix (replicate k 96) (removeAll_js (=) [96, 96, 96] s) \<Longrightarrow> prefix (replicate k 96) s"
proof (induction s arbitrary: k rule: length_induct)
  case (1 s)
  show ?case
  proof (cases s)
    case Nil
    then show ?thesis using 1(2) by simp
  next
    case (Cons c cs)
    show ?thesis
    proof (cases "prefix [96, 96, 96] s")
      case True
      then obtain r where r: "s = 96 # 96 # 96 # r" by (auto simp: prefix_def)
      then have "removeAll_js (=) [96, 96, 96] s = removeAll_js (=) [96, 96, 96] r"
        by simp
      then have "prefix (replicate k 96) r" using 1 r by simp
      then have "prefix (replicate (k + 3) 96) s"
        unfolding r by (simp add: numeral_3_eq_3)
      moreover have "prefix (replicate k 96) (replicate (k + 3) (96 :: nat))"
        by (simp add: replicate_add)
      ultimately show ?thesis using prefix_order.trans by blast
    next
      case False
      then have e: "removeAll_js (=) [96, 96, 96] s = c # removeAll_js (=) [96, 96, 96] cs"
        using Cons by (auto simp: matchesAt_eq)
      show ?thesis
      proof (cases k)
        case 0
        then show ?thesis by simp
      next
        case (Suc k')
        then have "c = 96" and "prefix (replicate k' 96) (removeAll_js (=) [96, 96, 96] cs)"
          using 1(2) e by simp_all
        moreover then have "prefix (replicate k' 96) cs" using 1(1) Cons by simp
        ultimately show ?thesis using Suc Cons by simp
      qed
    qed
  qed
qed

lemma removeAll_fence_free: "\<not> includes_js (removeAll_js (=) [96, 96, 96] s) [96, 96, 96]"
proof (induction s rule: length_induct)
  case (1 s)
  show ?case
  proof (cases s)
    case Nil
    then show ?thesis by simp
  next
    case (Cons c cs)
    show ?thesis
    proof (cases "prefix [96, 96, 96] s")
      case True
      then obtain r where r: "s = 96 # 96 # 96 # r" by (auto simp: prefix_def)
      then have "removeAll_js (=) [96, 96, 96] s = removeAll_js (=) [96, 96, 96] r"
        by simp
      then show ?thesis using 1 r by simp
    next
      case False
      then have e: "removeAll_js (=) [96, 96, 96] s = c # removeAll_js (=) [96, 96, 96] cs"
        using Cons by (auto simp: matchesAt_eq)
      have a: "\<not> includes_js (removeAll_js (=) [96, 96, 96] cs) [96, 96, 96]"
        using 1 Cons by simp
      have "\<not> prefix [96, 96, 96] (c # removeAll_js (=) [96, 96, 96] cs)"
      proof
        assume p: "prefix [96, 96, 96] (c # removeAll_js (=) [96, 96, 96] cs)"
        then have "c = 96" and "prefix (replicate 2 96) (removeAll_js (=) [96, 96, 96] cs)"
          by (simp_all add: numeral_2_eq_2)
        then have "prefix (replicate 2 96) cs" using tick_prefix_removeAll by blast
        then have "prefix [96, 96, 96] s" using \<open>c = 96\<close> Cons by (simp add: numeral_2_eq_2)
        then show False using False by simp
      qed
      then show ?thesis using a e by simp
    qed
  qed
qed

lemma vtt_not_at_fence:
  assumes "\<not> matchesAt eqIgnoreCase [118, 116, 116] p" and "96 \<notin> set p"
  shows "\<not> matchesAt eqIgnoreCase [118, 116, 116] (p @ [96, 96, 96])"
proof (cases p)
  case Nil
  then show ?thesis by (simp add: eqIgnoreCase_def canonicalize_def)
next
  case p1: (Cons a p1)
  show ?thesis
  proof (cases p1)
    case Nil
    then show ?thesis using p1 by (simp add: eqIgnoreCase_def canonicalize_def)
  next
    case p2: (Cons b p2)
    show ?thesis
    proof (cases p2)
      case Nil
      then show ?thesis using p1 p2 by (simp add: eqIgnoreCase_def canonicalize_def)
    next
      case (Cons c p3)
      then show ?thesis using p1 p2 assms(1) by simp
    qed
  qed
qed

lemma removeAll_vtt_plain:
  assumes "96 \<notin> set p" and "\<not> matchesAt eqIgnoreCase [118, 116, 116] p"
  shows "removeAll_js eqIgnoreCase [96, 96, 96, 118, 116, 116] ([96, 96, 96] @ p @ [96, 96, 96])
         = [96, 96, 96] @ p @ [96, 96, 96]"
proof (cases p)
  case Nil
  then show ?thesis by (simp add: eqIgnoreCase_def canonicalize_def)
next
  case (Cons a p')
  have a: "\<not> eqIgnoreCase 96 a" using assms(1) Cons by (simp add: eqIgnoreCase_tick)
  have m: "\<not> matchesAt eqIgnoreCase [118, 116, 116] (a # p' @ [96, 96, 96])"
    using vtt_not_at_fence[OF assms(2,1)] Cons by simp
  have r: "removeAll_js eqIgnoreCase [96, 96, 96, 118, 116, 116] (a # p' @ [96, 96, 96])
           = a # p' @ [96, 96, 96]"
    using removeAll_vtt_close[OF assms(1)] Cons by simp
  show ?thesis
    unfolding Cons using a m r by auto
qed

lemma sublist_trim: "sublist (trim s) s"
proof -
  let ?d = "dropWhile isWhiteSpace s"
  have "suffix (dropWhile isWhiteSpace (rev ?d)) (rev ?d)" by (rule suffix_dropWhile)
  then have "prefix (trim s) ?d" by (simp add: trim_def suffix_to_prefix)
  then have "sublist (trim s) ?d" by (rule prefix_imp_sublist)
  moreover have "sublist ?d s" using suffix_dropWhile by (rule suffix_imp_sublist)
  ultimately show ?thesis by (rule sublist_order.order.trans)
qed

lemma trim_ends:
  "trim s = [] \<or> (\<not> isWhiteSpace (hd (trim s)) \<and> \<not> isWhiteSpace (last (trim s)))"
proof (cases "trim s = []")
  case True
  then show ?thesis by simp
next
  case False
  let ?d = "dropWhile isWhiteSpace s"
  let ?e = "dropWhile isWhiteSpace (rev ?d)"
  have t: "trim s = rev ?e" by (simp add: trim_def)
  then have e: "?e \<noteq> []" using False by simp
  then have "\<not> isWhiteSpace (hd ?e)" by (rule hd_dropWhile)
  then have l: "\<not> isWhiteSpace (last (trim s))" using e by (simp add: t last_rev)
  have "suffix ?e (rev ?d)" by (rule suffix_dropWhile)
  then have "prefix (trim s) ?d" by (simp add: t suffix_to_prefix)
  then obtain z where z: "?d = trim s @ z" by (auto simp: prefix_def)
  then have "?d \<noteq> []" using False by auto
  then have "\<not> isWhiteSpace (hd ?d)" by (rule hd_dropWhile)
  moreover have "hd ?d = hd (trim s)" using z False by (metis hd_append2)
  ultimately show ?thesis using l by simp
qed

lemma trim_fence_free:
  assumes "\<not> includes_js s (js ''```'')"
  shows "\<not> includes_js (trim s) (js ''```'')" and "\<not> includes_js (trim s) (js ''```vtt'')"
proof -
  have n: "\<not> sublist [96, 96, 96] s" using assms by (simp add: includes_js_sublist fence_js)
  have a: "\<not> sublist [96, 96, 96] (trim s)"
    using n sublist_trim sublist_order.order.trans by blast
  then show "\<not> includes_js (trim s) (js ''```'')" by (simp add: includes_js_sublist fence_js)
  have "sublist [96, 96, 96] [96, 96, 96, 118, 116, 116]"
    by (intro prefix_imp_sublist) simp
  then have "\<not> sublist [96, 96, 96, 118, 116, 116] (trim s)"
    using a sublist_order.order.trans by blast
  then show "\<not> includes_js (trim s) (js ''```vtt'')" by (simp add: includes_js_sublist fence_js)
qed

lemma settle_fulfilled_nth:
  assumes "k < length (queue s)" and "id_q (queue s ! k) = id_q nextItem"
  shows "queue (processNextItem_settle nextItem (Fulfilled r) s) ! k
         = (queue s ! k)\<lparr>status := Completed, subtitles := Some r\<rparr>"
  using assms by (simp add: processNextItem_settle_def)

text \<open>
  C8. When the key is set, the file is encoded and the model answers with a text that is
  not empty, the text that \<open>generateSubtitles\<close> returns, and that the item then holds
  as its subtitles, contains no fence \<open>```\<close> (and so no \<open>```vtt\<close>) and neither
  begins nor ends with white space. A payload without backticks that is wrapped in
  \<open>```vtt\<close> (in any case) and \<open>```\<close>, or in \<open>```\<close> and \<open>```\<close>, comes out as the
  trimmed payload, and a text without backticks comes out trimmed.
\<close>

theorem fences_removed_before_result:
  assumes "API_KEY \<noteq> []"
    and "fileToBase64 (file_q nextItem) = Inr base64Audio"
    and "generateContent (type (file_q nextItem)) base64Audio = ApiResolved (Some text)"
    and "text \<noteq> []"
  shows "\<exists>r. generateSubtitles API_KEY generateContent base64Audio (type (file_q nextItem)) = Inr r
         \<and> runJob API_KEY fileToBase64 generateContent nextItem = Fulfilled r
         \<and> \<not> includes_js r (js ''```'')
         \<and> \<not> includes_js r (js ''```vtt'')
         \<and> (r = [] \<or> (\<not> isWhiteSpace (hd r) \<and> \<not> isWhiteSpace (last r)))
         \<and> (\<forall>fence p. list_all2 eqIgnoreCase (js ''```vtt'') fence \<and> 96 \<notin> set p
                \<and> text = fence @ p @ js ''```'' \<longrightarrow> r = trim p)
         \<and> (\<forall>p. 96 \<notin> set p \<and> \<not> matchesAt eqIgnoreCase (js ''vtt'') p
                \<and> text = js ''```'' @ p @ js ''```'' \<longrightarrow> r = trim p)
         \<and> (96 \<notin> set text \<longrightarrow> r = trim text)
         \<and> (\<forall>k < length (queue s). id_q (queue s ! k) = id_q nextItem \<longrightarrow>
               queue (processNextItem_settle nextItem
                        (runJob API_KEY fileToBase64 generateContent nextItem) s) ! k
                 = (queue s ! k)\<lparr>status := Completed, subtitles := Some r\<rparr>)"
proof -
  let ?F = "[96, 96, 96] :: jsstring"
  let ?V = "[96, 96, 96, 118, 116, 116] :: jsstring"
  let ?c = "removeAll_js (=) ?F (removeAll_js eqIgnoreCase ?V text)"
  let ?r = "trim ?c"
  have g: "generateSubtitles API_KEY generateContent base64Audio (type (file_q nextItem)) = Inr ?r"
    using assms(1,3,4) by (simp add: generateSubtitles_def fence_js)
  have j: "runJob API_KEY fileToBase64 generateContent nextItem = Fulfilled ?r"
    using assms(2) g by (simp add: runJob_def)
  have "\<not> includes_js ?c (js ''```'')"
    using removeAll_fence_free by (simp add: fence_js)
  then have f: "\<not> includes_js ?r (js ''```'')" "\<not> includes_js ?r (js ''```vtt'')"
    by (rule trim_fence_free)+
  have e: "?r = [] \<or> (\<not> isWhiteSpace (hd ?r) \<and> \<not> isWhiteSpace (last ?r))"
    by (rule trim_ends)
  have eq96: "\<And>c. (96 :: nat) = c \<Longrightarrow> c = 96" by simp
  have ci96: "\<And>c. eqIgnoreCase 96 c \<Longrightarrow> c = 96" by (simp add: eqIgnoreCase_tick)
  have w1: "?r = trim p"
    if "list_all2 eqIgnoreCase (js ''```vtt'') fence" "96 \<notin> set p" "text = fence @ p @ js ''```''"
    for fence p
  proof -
    have "removeAll_js eqIgnoreCase ?V text = removeAll_js eqIgnoreCase ?V (p @ ?F)"
      using that(1,3) removeAll_vtt_open[of fence "p @ ?F"] by (simp add: fence_js)
    also have "\<dots> = p @ ?F" using that(2) by (rule removeAll_vtt_close)
    finally have "?c = removeAll_js (=) ?F (p @ ?F @ [])" by simp
    also have "\<dots> = p @ removeAll_js (=) ?F []" using that(2) by (rule removeAll_fence_close)
    finally show ?thesis by simp
  qed
  have w2: "?r = trim p"
    if "96 \<notin> set p" "\<not> matchesAt eqIgnoreCase (js ''vtt'') p" "text = js ''```'' @ p @ js ''```''"
    for p
  proof -
    have "removeAll_js eqIgnoreCase ?V text = ?F @ p @ ?F"
      using that removeAll_vtt_plain[of p] by (simp add: fence_js)
    then have "?c = removeAll_js (=) ?F ([] @ ?F @ (p @ ?F @ []))" by simp
    also have "\<dots> = [] @ removeAll_js (=) ?F (p @ ?F @ [])"
      by (rule removeAll_fence_close) simp
    also have "\<dots> = p @ removeAll_js (=) ?F []"
      using removeAll_fence_close[OF that(1), of "[]"] by simp
    finally show ?thesis by simp
  qed
  have w3: "?r = trim text" if "96 \<notin> set text"
    using that removeAll_no_tick[OF ci96 that] removeAll_no_tick[OF eq96 that] by simp
  have st: "queue (processNextItem_settle nextItem
                        (runJob API_KEY fileToBase64 generateContent nextItem) s) ! k
                 = (queue s ! k)\<lparr>status := Completed, subtitles := Some ?r\<rparr>"
    if "k < length (queue s)" "id_q (queue s ! k) = id_q nextItem" for k
    unfolding j using that by (rule settle_fulfilled_nth)
  show ?thesis
  proof (intro exI[of _ ?r] conjI allI impI)
    show "generateSubtitles API_KEY generateContent base64Audio (type (file_q nextItem)) = Inr ?r"
      by (rule g)
    show "runJob API_KEY fileToBase64 generateContent nextItem = Fulfilled ?r" by (rule j)
    show "\<not> includes_js ?r (js ''```'')" by (rule f(1))
    show "\<not> includes_js ?r (js ''```vtt'')" by (rule f(2))
    show "?r = [] \<or> (\<not> isWhiteSpace (hd ?r) \<and> \<not> isWhiteSpace (last ?r))" by (rule e)
  next
    fix fence p
    assume "list_all2 eqIgnoreCase (js ''```vtt'') fence \<and> 96 \<notin> set p
            \<and> text = fence @ p @ js ''```''"
    then show "?r = trim p" using w1 by blast
  next
    fix p
    assume "96 \<notin> set p \<and> \<not> matchesAt eqIgnoreCase (js ''vtt'') p
            \<and> text = js ''```'' @ p @ js ''```''"
    then show "?r = trim p" using w2 by blast
  next
    assume "96 \<notin> set text"
    then show "?r = trim text" by (rule w3)
  next
    fix k
    assume "k < length (queue s)" and "id_q (queue s ! k) = id_q nextItem"
    then show "queue (processNextItem_settle nextItem
                        (runJob API_KEY fileToBase64 generateContent nextItem) s) ! k
                 = (queue s ! k)\<lparr>status := Completed, subtitles := Some ?r\<rparr>"
      by (rule st)
  qed
qed

theorem fences_removed_before_result_witness:
  "js ''key'' \<noteq> []
   \<and> (\<lambda>f. Inr (js ''QUJD'')) (file_q (ex_item ''a'' Idle)) = (Inr (js ''QUJD'') :: JsError + jsstring)
   \<and> (\<lambda>mimeType data. ApiResolved (Some (js ''```vtt\<newline>WEBVTT\<newline>```'')))
         (type (file_q (ex_item ''a'' Idle))) (js ''QUJD'')
       = ApiResolved (Some (js ''```vtt\<newline>WEBVTT\<newline>```''))
   \<and> js ''```vtt\<newline>WEBVTT\<newline>```'' \<noteq> []
   \<and> generateSubtitles (js ''key'')
         (\<lambda>mimeType data. ApiResolved (Some (js ''```vtt\<newline>WEBVTT\<newline>```'')))
         (js ''QUJD'') (type (file_q (ex_item ''a'' Idle))) = Inr (js ''WEBVTT'')
   \<and> queue (processNextItem_settle (ex_item ''a'' Idle)
        (runJob (js ''key'') (\<lambda>f. Inr (js ''QUJD''))
           (\<lambda>mimeType data. ApiResolved (Some (js ''```vtt\<newline>WEBVTT\<newline>```'')))
           (ex_item ''a'' Idle))
        (app ex_busy_world)) ! 0
     = (ex_item ''a'' Completed)\<lparr>subtitles := Some (js ''WEBVTT'')\<rparr>"
proof -
  let ?gc = "\<lambda>mimeType data :: jsstring. ApiResolved (Some (js ''```vtt\<newline>WEBVTT\<newline>```''))"
  let ?fb = "\<lambda>f :: File. (Inr (js ''QUJD'') :: JsError + jsstring)"
  have h1: "js ''key'' \<noteq> []" by (simp add: js_def)
  have h2: "?fb (file_q (ex_item ''a'' Idle)) = Inr (js ''QUJD'')" by simp
  have h3: "?gc (type (file_q (ex_item ''a'' Idle))) (js ''QUJD'')
            = ApiResolved (Some (js ''```vtt\<newline>WEBVTT\<newline>```''))" by simp
  have h4: "js ''```vtt\<newline>WEBVTT\<newline>```'' \<noteq> []" by (simp add: js_def)
  from fences_removed_before_result[OF h1 h2 h3 h4, where s = "app ex_busy_world"] obtain r where
    g: "generateSubtitles (js ''key'') ?gc (js ''QUJD'') (type (file_q (ex_item ''a'' Idle))) = Inr r"
    and w: "\<forall>fence p. list_all2 eqIgnoreCase (js ''```vtt'') fence \<and> 96 \<notin> set p
                \<and> js ''```vtt\<newline>WEBVTT\<newline>```'' = fence @ p @ js ''```'' \<longrightarrow> r = trim p"
    and q: "\<forall>k < length (queue (app ex_busy_world)).
              id_q (queue (app ex_busy_world) ! k) = id_q (ex_item ''a'' Idle) \<longrightarrow>
               queue (processNextItem_settle (ex_item ''a'' Idle)
                        (runJob (js ''key'') ?fb ?gc (ex_item ''a'' Idle)) (app ex_busy_world)) ! k
                 = (queue (app ex_busy_world) ! k)\<lparr>status := Completed, subtitles := Some r\<rparr>"
    by blast
  have "list_all2 eqIgnoreCase (js ''```vtt'') (js ''```vtt'') \<and> 96 \<notin> set (js ''\<newline>WEBVTT\<newline>'')
        \<and> js ''```vtt\<newline>WEBVTT\<newline>```'' = js ''```vtt'' @ js ''\<newline>WEBVTT\<newline>'' @ js ''```''"
    by (simp add: js_def eqIgnoreCase_def)
  then have "r = trim (js ''\<newline>WEBVTT\<newline>'')" using w by blast
  then have r: "r = js ''WEBVTT''" by (simp add: js_def trim_def isWhiteSpace_def)
  have "0 < length (queue (app ex_busy_world))
        \<and> id_q (queue (app ex_busy_world) ! 0) = id_q (ex_item ''a'' Idle)"
    by (simp add: ex_busy_world_def ex_item_def)
  then have "queue (processNextItem_settle (ex_item ''a'' Idle)
                        (runJob (js ''key'') ?fb ?gc (ex_item ''a'' Idle)) (app ex_busy_world)) ! 0
                 = (queue (app ex_busy_world) ! 0)\<lparr>status := Completed, subtitles := Some r\<rparr>"
    using q by blast
  also have "\<dots> = (ex_item ''a'' Completed)\<lparr>subtitles := Some (js ''WEBVTT'')\<rparr>"
    by (simp add: r ex_busy_world_def ex_item_def)
  finally show ?thesis using h1 h4 g r by simp
qed

section \<open>Lines that end in carriage return and line feed\<close>

text \<open>
  The header expression accepts both line ends, \<open>(\r\n|\n)+\<close>. The two splits behind
  it, \<open>split(/\n\n+/)\<close> for the blocks and \<open>split('\n')\<close> for the lines, know the line
  feed only: between two cues that are separated by a blank line there is then
  \<open>\r\n\r\n\<close>, which holds no two line feeds in a row, and the whole transcript stays one
  block.
\<close>

lemma lf_two_cues:
  "vttToSrt (js ''WEBVTT\<newline>\<newline>0.1 --> 0.2\<newline>Hi\<newline>\<newline>0.2 --> 0.3\<newline>Yo'')
     = js ''0,1 --> 0,2\<newline>Hi\<newline>\<newline>0,2 --> 0,3\<newline>Yo''"
  by (simp add: js_def vttToSrt_def stripHeader_def convertBlock_def replaceDots_def trim_def
      isWhiteSpace_def matchNewlines_def)

lemma lf_note:
  "vttToSrt (js ''WEBVTT\<newline>\<newline>NOTE comment\<newline>\<newline>0.1 --> 0.2\<newline>Hi'')
     = js ''0,1 --> 0,2\<newline>Hi''"
  by (simp add: js_def vttToSrt_def stripHeader_def convertBlock_def replaceDots_def trim_def
      isWhiteSpace_def matchNewlines_def)

lemma crlf_two_cues_output:
  "vttToSrt ex_crlf_two_cues =
     js ''0,1 --> 0,2'' @ [13, 10] @ js ''Hi'' @ [13, 10, 13, 10] @
     js ''0.2 --> 0.3'' @ [13, 10] @ js ''Yo''"
  by (simp add: ex_crlf_two_cues_def js_def vttToSrt_def stripHeader_def convertBlock_def
      replaceDots_def trim_def isWhiteSpace_def matchNewlines_def)

lemma crlf_note_output:
  "vttToSrt ex_crlf_note =
     js ''NOTE comment'' @ [13, 10, 13, 10] @ js ''0,1 --> 0,2'' @ [13, 10] @ js ''Hi''"
  by (simp add: ex_crlf_note_def js_def vttToSrt_def stripHeader_def convertBlock_def
      replaceDots_def trim_def isWhiteSpace_def matchNewlines_def)

text \<open>
  C5. The claim: a well-formed input of two cues under a header gives an output of
  exactly two blocks, each with a time line whose dots are commas. On
  \<open>ex_crlf_two_cues\<close> the header is stripped, but the two cues stay one block: the output
  splits into one block, only the first time line has its dots rewritten, and the second
  is still \<open>0.2 --> 0.3\<close>. The same transcript with line feeds gives the two blocks.
\<close>

theorem crlf_two_cues_stay_one_block:
  "stripHeader ex_crlf_two_cues =
     js ''0.1 --> 0.2'' @ [13, 10] @ js ''Hi'' @ [13, 10, 13, 10] @
     js ''0.2 --> 0.3'' @ [13, 10] @ js ''Yo''
   \<and> length (splitBlocks (stripHeader ex_crlf_two_cues)) = 1
   \<and> vttToSrt ex_crlf_two_cues =
       js ''0,1 --> 0,2'' @ [13, 10] @ js ''Hi'' @ [13, 10, 13, 10] @
       js ''0.2 --> 0.3'' @ [13, 10] @ js ''Yo''
   \<and> length (splitBlocks (vttToSrt ex_crlf_two_cues)) = 1
   \<and> includes_js (vttToSrt ex_crlf_two_cues) (js ''0.2 --> 0.3'')
   \<and> length (splitBlocks (vttToSrt
         (js ''WEBVTT\<newline>\<newline>0.1 --> 0.2\<newline>Hi\<newline>\<newline>0.2 --> 0.3\<newline>Yo''))) = 2"
proof -
  have s: "stripHeader ex_crlf_two_cues =
     js ''0.1 --> 0.2'' @ [13, 10] @ js ''Hi'' @ [13, 10, 13, 10] @
     js ''0.2 --> 0.3'' @ [13, 10] @ js ''Yo''"
    by (simp add: ex_crlf_two_cues_def js_def stripHeader_def isWhiteSpace_def matchNewlines_def)
  have s1: "length (splitBlocks (stripHeader ex_crlf_two_cues)) = 1"
    unfolding s by (simp add: js_def)
  have o1: "length (splitBlocks (vttToSrt ex_crlf_two_cues)) = 1"
    unfolding crlf_two_cues_output by (simp add: js_def)
  have i: "includes_js (vttToSrt ex_crlf_two_cues) (js ''0.2 --> 0.3'')"
    unfolding crlf_two_cues_output by (simp add: js_def)
  have l: "length (splitBlocks (vttToSrt
         (js ''WEBVTT\<newline>\<newline>0.1 --> 0.2\<newline>Hi\<newline>\<newline>0.2 --> 0.3\<newline>Yo''))) = 2"
    unfolding lf_two_cues by (simp add: js_def)
  show ?thesis using s s1 crlf_two_cues_output o1 i l by (intro conjI) assumption+
qed

text \<open>
  C6. The claim: a block without a line that contains \<open>-->\<close> is absent from the
  output. On \<open>ex_crlf_note\<close> the note is a block of its own, set off by blank lines,
  and has no such line; the header is stripped, the note and the cue stay one block, that
  block has a time line, and the note is in the output. The same transcript with line
  feeds loses the note.
\<close>

theorem crlf_note_block_kept:
  "stripHeader ex_crlf_note =
     js ''NOTE comment'' @ [13, 10, 13, 10] @ js ''0.1 --> 0.2'' @ [13, 10] @ js ''Hi''
   \<and> \<not> includes_js (js ''NOTE comment'') (js ''-->'')
   \<and> length (splitBlocks (stripHeader ex_crlf_note)) = 1
   \<and> vttToSrt ex_crlf_note =
       js ''NOTE comment'' @ [13, 10, 13, 10] @ js ''0,1 --> 0,2'' @ [13, 10] @ js ''Hi''
   \<and> includes_js (vttToSrt ex_crlf_note) (js ''NOTE comment'')
   \<and> vttToSrt (js ''WEBVTT\<newline>\<newline>NOTE comment\<newline>\<newline>0.1 --> 0.2\<newline>Hi'')
       = js ''0,1 --> 0,2\<newline>Hi''"
proof -
  have s: "stripHeader ex_crlf_note =
     js ''NOTE comment'' @ [13, 10, 13, 10] @ js ''0.1 --> 0.2'' @ [13, 10] @ js ''Hi''"
    by (simp add: ex_crlf_note_def js_def stripHeader_def isWhiteSpace_def matchNewlines_def)
  have n: "\<not> includes_js (js ''NOTE comment'') (js ''-->'')"
    by (simp add: js_def)
  have s1: "length (splitBlocks (stripHeader ex_crlf_note)) = 1"
    unfolding s by (simp add: js_def)
  have i: "includes_js (vttToSrt ex_crlf_note) (js ''NOTE comment'')"
    unfolding crlf_note_output by (simp add: js_def)
  show ?thesis using s n s1 crlf_note_output i lf_note by (intro conjI) assumption+
qed

end
